theory Spec2Isabelle
  imports Main
begin

section \<open>Text, errors and dictionaries\<close>

text \<open>
  Python \<^verbatim>\<open>str\<close> values are modelled as \<^typ>\<open>string\<close>: lists of characters with
  code points below 256.  In that range the class \<^verbatim>\<open>\d\<close> of the \<^verbatim>\<open>re\<close> module is the
  ten ASCII digits, and \<^verbatim>\<open>.\<close> is every character but the line feed.
\<close>

datatype error = IndexError | AttributeError | ValueError

definition LF :: char where
  "LF = CHR 0x0A"

definition CR :: char where
  "CR = CHR 0x0D"

definition DQ :: char where
  "DQ = CHR 0x22"

text \<open>
  A Python \<^verbatim>\<open>dict\<close> keeps its keys in insertion order; storing under a key that is
  already present replaces the value and leaves the key where it is.
\<close>

fun dict_set :: "'k \<Rightarrow> 'v \<Rightarrow> ('k \<times> 'v) list \<Rightarrow> ('k \<times> 'v) list" where
  "dict_set k v [] = [(k, v)]"
| "dict_set k v ((k', v') # d) = (if k' = k then (k, v) # d else (k', v') # dict_set k v d)"

text \<open>\<^verbatim>\<open>d.update(items)\<close> and a dict comprehension both store the items one by one.\<close>

definition dict_update :: "('k \<times> 'v) list \<Rightarrow> ('k \<times> 'v) list \<Rightarrow> ('k \<times> 'v) list" where
  "dict_update d items = fold (\<lambda>(k, v). dict_set k v) items d"

section \<open>\<^verbatim>\<open>str.splitlines\<close>\<close>

text \<open>The line boundaries of \<^verbatim>\<open>str.splitlines\<close> among the code points below 256.\<close>

definition is_linebreak :: "char \<Rightarrow> bool" where
  "is_linebreak c \<longleftrightarrow>
     c \<in> set [CHR 0x0A, CHR 0x0B, CHR 0x0C, CHR 0x0D, CHR 0x1C, CHR 0x1D, CHR 0x1E, CHR 0x85]"

text \<open>
  \<open>split_acc cur s\<close>: \<open>cur\<close> is the line read so far.  A carriage return followed
  by a line feed is one boundary; no empty line follows the last boundary.
\<close>

fun split_acc :: "string \<Rightarrow> string \<Rightarrow> string list" where
  "split_acc cur [] = (if cur = [] then [] else [cur])"
| "split_acc cur (c # cs) =
     (if c = CR then
        (case cs of
           [] \<Rightarrow> [cur]
         | d # ds \<Rightarrow> if d = LF then cur # split_acc [] ds else cur # split_acc [] (d # ds))
      else if is_linebreak c then cur # split_acc [] cs
      else split_acc (cur @ [c]) cs)"

definition splitlines :: "string \<Rightarrow> string list" where
  "splitlines s = split_acc [] s"

section \<open>The regular expressions\<close>

text \<open>
  A pattern is a list of alternatives, each a sequence of tokens.  The two patterns of
  \<^verbatim>\<open>m3u_to_json\<close> repeat single characters only, and alternate only at top level.
  \<open>Open g\<close> and \<open>Close g\<close> are the parentheses of the named group \<open>g\<close>.
\<close>

datatype tok =
    Lit char
  | Cls "char \<Rightarrow> bool"
  | Star "char \<Rightarrow> bool"
  | Plus "char \<Rightarrow> bool"
  | Open string
  | Close string

definition digit :: "char \<Rightarrow> bool" where
  "digit c \<longleftrightarrow> c \<in> set ''0123456789''"

definition dot :: "char \<Rightarrow> bool" where
  "dot c \<longleftrightarrow> c \<noteq> LF"

definition not_quote :: "char \<Rightarrow> bool" where
  "not_quote c \<longleftrightarrow> c \<noteq> DQ"

definition lits :: "string \<Rightarrow> tok list" where
  "lits s = map Lit s"

text \<open>
  The state of a match attempt: the input still to read, the text that stood at each
  group's opening parenthesis, and the groups closed so far.
\<close>

record mstate =
  rest :: string
  opened :: "(string \<times> string) list"
  groups :: "(string \<times> string) list"

text \<open>
  The backtracking matcher as a list of successes: \<open>runs ts st\<close> lists the ways the
  tokens \<open>ts\<close> match a prefix of the input, in the order the backtracking search of
  \<^verbatim>\<open>re\<close> finds them.  A greedy repetition tries the longest run first and gives
  characters back one at a time.  The match \<^verbatim>\<open>re\<close> reports is the first success.
\<close>

fun runs :: "tok list \<Rightarrow> mstate \<Rightarrow> mstate list" where
  "runs [] st = [st]"
| "runs (Lit c # ts) st =
     (case rest st of
        [] \<Rightarrow> []
      | x # xs \<Rightarrow> if x = c then runs ts (st\<lparr>rest := xs\<rparr>) else [])"
| "runs (Cls P # ts) st =
     (case rest st of
        [] \<Rightarrow> []
      | x # xs \<Rightarrow> if P x then runs ts (st\<lparr>rest := xs\<rparr>) else [])"
| "runs (Star P # ts) st =
     concat (map (\<lambda>k. runs ts (st\<lparr>rest := drop k (rest st)\<rparr>))
       (rev [0 ..< Suc (length (takeWhile P (rest st)))]))"
| "runs (Plus P # ts) st =
     concat (map (\<lambda>k. runs ts (st\<lparr>rest := drop k (rest st)\<rparr>))
       (rev [1 ..< Suc (length (takeWhile P (rest st)))]))"
| "runs (Open g # ts) st = runs ts (st\<lparr>opened := (g, rest st) # opened st\<rparr>)"
| "runs (Close g # ts) st =
     (case map_of (opened st) g of
        None \<Rightarrow> []
      | Some s0 \<Rightarrow>
          runs ts (st\<lparr>groups := dict_set g (take (length s0 - length (rest st)) s0) (groups st)\<rparr>))"

text \<open>A match object: where the match starts and ends, and its named groups.\<close>

record rmatch =
  m_start :: nat
  m_end :: nat
  m_groups :: "(string \<times> string) list"

text \<open>
  \<open>match_here alts s\<close>: the match starting at the head of \<open>s\<close>, from the first
  alternative that has one; it gives the groups and the input left after the match.
\<close>

fun match_here :: "tok list list \<Rightarrow> string \<Rightarrow> ((string \<times> string) list \<times> string) option" where
  "match_here [] s = None"
| "match_here (a # alts) s =
     (case runs a \<lparr>rest = s, opened = [], groups = []\<rparr> of
        [] \<Rightarrow> match_here alts s
      | st # _ \<Rightarrow> Some (groups st, rest st))"

text \<open>\<^verbatim>\<open>re.search\<close>: the match at the leftmost position that has one; \<open>p\<close> is the position of the head of \<open>s\<close>.\<close>

fun re_search :: "tok list list \<Rightarrow> string \<Rightarrow> nat \<Rightarrow> rmatch option" where
  "re_search alts [] p =
     (case match_here alts [] of
        None \<Rightarrow> None
      | Some (gs, r) \<Rightarrow> Some \<lparr>m_start = p, m_end = p, m_groups = gs\<rparr>)"
| "re_search alts (x # xs) p =
     (case match_here alts (x # xs) of
        None \<Rightarrow> re_search alts xs (Suc p)
      | Some (gs, r) \<Rightarrow>
          Some \<lparr>m_start = p, m_end = p + (length (x # xs) - length r), m_groups = gs\<rparr>)"

text \<open>
  \<^verbatim>\<open>finditer\<close>: the matches from left to right, each search starting where the last
  match ended.  After an empty match the scan moves on by one character (no alternative
  of the stream pattern matches the empty text, see \<open>stream_match_nonempty\<close>).
\<close>

function finditer :: "tok list list \<Rightarrow> string \<Rightarrow> nat \<Rightarrow> rmatch list" where
  "finditer alts s p =
     (case match_here alts s of
        None \<Rightarrow> (case s of [] \<Rightarrow> [] | x # xs \<Rightarrow> finditer alts xs (Suc p))
      | Some (gs, r) \<Rightarrow>
          \<lparr>m_start = p, m_end = p + (length s - length r), m_groups = gs\<rparr> #
          (if length s - length r = 0
           then (case s of [] \<Rightarrow> [] | x # xs \<Rightarrow> finditer alts xs (Suc p))
           else finditer alts r (p + (length s - length r))))"
  by pat_completeness auto
termination
  by (relation "measure (\<lambda>(alts, s, p). length s)") auto

text \<open>\<^verbatim>\<open>m.groupdict()\<close>: every named group of the pattern, \<open>None\<close> for a group that took no part in the match.\<close>

definition groupdict :: "string list \<Rightarrow> rmatch \<Rightarrow> (string \<times> string option) list" where
  "groupdict names m = map (\<lambda>g. (g, map_of (m_groups m) g)) names"

text \<open>
  The header pattern of \<^verbatim>\<open>m3u_to_json\<close>:
  \<^verbatim>\<open>#EXTM3U url-tvg="(?P<url_tvg>.*)" x-tvg-url="(?P<x_tvg_url>.*)"\<close>
\<close>

definition regex_info :: "tok list list" where
  \<open>regex_info =
     [lits ''#EXTM3U url-tvg="'' @ [Open ''url_tvg'', Star dot, Close ''url_tvg''] @
      lits ''" x-tvg-url="'' @ [Open ''x_tvg_url'', Star dot, Close ''x_tvg_url''] @
      lits ''"'']\<close>

definition info_names :: "string list" where
  "info_names = [''url_tvg'', ''x_tvg_url'']"

text \<open>
  The stream pattern, compiled with \<^verbatim>\<open>re.VERBOSE\<close> (white space and comments of the
  pattern text are dropped); nine alternatives, in the order of the source.
  An attribute alternative is \<^verbatim>\<open>key=["](?P<g>[^"]+)["]\<close>.
\<close>

definition alt_attr :: "string \<Rightarrow> string \<Rightarrow> tok list" where
  \<open>alt_attr key g = lits (key @ ''="'') @ [Open g, Plus not_quote, Close g] @ lits ''"''\<close>

text \<open>\<^verbatim>\<open>[#]EXTINF:(?P<ext_inf>\d+)\<close>\<close>

definition alt_ext_inf :: "tok list" where
  "alt_ext_inf = lits ''#EXTINF:'' @ [Open ''ext_inf'', Plus digit, Close ''ext_inf'']"

text \<open>\<^verbatim>\<open>,(?P<chan_name>.*)\<close>\<close>

definition alt_chan_name :: "tok list" where
  "alt_chan_name = [Lit CHR '','', Open ''chan_name'', Star dot, Close ''chan_name'']"

text \<open>
  \<^verbatim>\<open>(?P<stream_url>(http://\d+.\d+.\d+.\d+\:\d+/stream/.*))\<close>; the dots between the
  numbers are not escaped and match any character of the line.  The inner group has
  no name and \<^verbatim>\<open>groupdict\<close> does not list it.
\<close>

definition alt_stream_url :: "tok list" where
  "alt_stream_url =
     [Open ''stream_url''] @ lits ''http://'' @
     [Plus digit, Cls dot, Plus digit, Cls dot, Plus digit, Cls dot, Plus digit,
      Lit CHR '':'', Plus digit] @
     lits ''/stream/'' @ [Star dot, Close ''stream_url'']"

definition regex_stream :: "tok list list" where
  "regex_stream =
     [alt_ext_inf,
      alt_attr ''channelID'' ''channelID'',
      alt_attr ''tvg-chno'' ''tvg_chno'',
      alt_attr ''tvg-name'' ''tvg_name'',
      alt_attr ''tvg-id'' ''tvg_id'',
      alt_attr ''tvg-logo'' ''tvg_logo'',
      alt_attr ''group-title'' ''group_title'',
      alt_chan_name,
      alt_stream_url]"

definition stream_names :: "string list" where
  "stream_names =
     [''ext_inf'', ''channelID'', ''tvg_chno'', ''tvg_name'', ''tvg_id'', ''tvg_logo'',
      ''group_title'', ''chan_name'', ''stream_url'']"

section \<open>\<^verbatim>\<open>json.dumps\<close>\<close>

text \<open>The values \<^verbatim>\<open>m3u_to_json\<close> hands to \<^verbatim>\<open>json.dumps\<close>: \<^verbatim>\<open>None\<close>, strings, lists and dicts with string keys.\<close>

datatype json = JNull | JString string | JArray "json list" | JObject "(string \<times> json) list"

definition hex_digit :: "nat \<Rightarrow> char" where
  "hex_digit n = ''0123456789abcdef'' ! (n mod 16)"

text \<open>
  With \<^verbatim>\<open>ensure_ascii\<close> (the default) every character outside the range from the
  space to the tilde is escaped, and so are the backslash and the double quote.
\<close>

definition escape_char :: "char \<Rightarrow> string" where
  \<open>escape_char c =
     (if c = CHR 0x5C then [CHR 0x5C, CHR 0x5C]
      else if c = CHR 0x22 then [CHR 0x5C, CHR 0x22]
      else if c = CHR 0x08 then [CHR 0x5C, CHR ''b'']
      else if c = CHR 0x0C then [CHR 0x5C, CHR ''f'']
      else if c = CHR 0x0A then [CHR 0x5C, CHR ''n'']
      else if c = CHR 0x0D then [CHR 0x5C, CHR ''r'']
      else if c = CHR 0x09 then [CHR 0x5C, CHR ''t'']
      else if 0x20 \<le> (of_char c :: nat) \<and> (of_char c :: nat) \<le> 0x7E then [c]
      else [CHR 0x5C, CHR ''u'', CHR ''0'', CHR ''0'',
            hex_digit (of_char c div 16), hex_digit (of_char c mod 16)])\<close>

definition encode_basestring_ascii :: "string \<Rightarrow> string" where
  "encode_basestring_ascii s = [DQ] @ concat (map escape_char s) @ [DQ]"

text \<open>\<^verbatim>\<open>sep.join(xs)\<close>\<close>

fun join :: "string \<Rightarrow> string list \<Rightarrow> string" where
  "join sep [] = []"
| "join sep [x] = x"
| "join sep (x # y # ys) = x @ sep @ join sep (y # ys)"

fun dumps :: "json \<Rightarrow> string" where
  "dumps JNull = ''null''"
| "dumps (JString s) = encode_basestring_ascii s"
| "dumps (JArray xs) = ''['' @ join '', '' (map dumps xs) @ '']''"
| "dumps (JObject kvs) =
     ''{'' @ join '', '' (map (\<lambda>kv. encode_basestring_ascii (fst kv) @ '': '' @ dumps (snd kv)) kvs) @ ''}''"

section \<open>\<^verbatim>\<open>m3u_to_json\<close>\<close>

text \<open>\<^verbatim>\<open>xs[0::2]\<close>: every second element, from the first.\<close>

fun step2 :: "'a list \<Rightarrow> 'a list" where
  "step2 [] = []"
| "step2 [x] = [x]"
| "step2 (x # y # xs) = x # step2 xs"

text \<open>\<^verbatim>\<open>list(map("\n".join, zip(temp[0::2], temp[1::2])))\<close>\<close>

definition pair_lines :: "string list \<Rightarrow> string list" where
  "pair_lines temp = map (\<lambda>(a, b). join [LF] [a, b]) (zip (step2 temp) (step2 (drop 1 temp)))"

text \<open>
  The items a match adds to the entry: \<^verbatim>\<open>for k, v in m.groupdict().items() if v\<close>
  keeps the groups whose value is neither \<^verbatim>\<open>None\<close> nor the empty string.
\<close>

definition kept_items :: "rmatch \<Rightarrow> (string \<times> string) list" where
  "kept_items m =
     concat (map (\<lambda>(k, v). case v of None \<Rightarrow> [] | Some s \<Rightarrow> if s = [] then [] else [(k, s)])
       (groupdict stream_names m))"

text \<open>The dict comprehension over \<^verbatim>\<open>r_stream.finditer(line)\<close>.\<close>

definition stream_entry :: "string \<Rightarrow> (string \<times> string) list" where
  "stream_entry line = dict_update [] (concat (map kept_items (finditer regex_stream line 0)))"

definition entry_json :: "(string \<times> string) list \<Rightarrow> json" where
  "entry_json e = JObject (map (\<lambda>(k, v). (k, JString v)) e)"

definition info_json :: "string option \<Rightarrow> json" where
  "info_json v = (case v of None \<Rightarrow> JNull | Some s \<Rightarrow> JString s)"

text \<open>The loop over the paired lines, which fills the list \<^verbatim>\<open>streams\<close>.\<close>

definition parse_streams :: "string list \<Rightarrow> json list" where
  "parse_streams temp = map (\<lambda>line. entry_json (stream_entry line)) (pair_lines temp)"

text \<open>
  \<open>m3u_data\<close> is the dict \<^verbatim>\<open>data\<close> as it stands before the last line of
  \<^verbatim>\<open>m3u_to_json\<close>.  \<^verbatim>\<open>temp.pop(0)\<close> raises IndexError on an empty list, and
  \<^verbatim>\<open>re.search(...).groupdict()\<close> raises AttributeError when the search returns \<^verbatim>\<open>None\<close>.
\<close>

definition m3u_data :: "string \<Rightarrow> error + json" where
  "m3u_data src =
     (case splitlines src of
        [] \<Rightarrow> Inl IndexError
      | temp_info # temp \<Rightarrow>
          (case re_search regex_info temp_info 0 of
             None \<Rightarrow> Inl AttributeError
           | Some m \<Rightarrow>
               let info = groupdict info_names m;
                   data = dict_update [] (map (\<lambda>(k, v). (k, info_json v)) info);
                   streams = parse_streams temp
               in Inr (JObject (dict_update data [(''streams'', JArray streams)]))))"

definition m3u_to_json :: "string \<Rightarrow> error + string" where
  "m3u_to_json src = (case m3u_data src of Inl e \<Rightarrow> Inl e | Inr data \<Rightarrow> Inr (dumps data))"

section \<open>\<^verbatim>\<open>gen_xmltv_xml\<close>\<close>

text \<open>
  A channel or program object is a dict; the generator reads only \<^verbatim>\<open>.values()\<close>, the
  values in insertion order.  A value is modelled by the text its formatting in the
  f-string gives.
\<close>

type_synonym pydict = "(string \<times> string) list"

definition dict_values :: "pydict \<Rightarrow> string list" where
  "dict_values d = map snd d"

text \<open>
  \<^verbatim>\<open>tvg_id, tvg_name, tvg_logo, epg_desc = channel.values()\<close> raises ValueError unless
  there are exactly four values.
\<close>

fun channel_xml :: "string list \<Rightarrow> error + string" where
  \<open>channel_xml [tvg_id, tvg_name, tvg_logo, epg_desc] =
     Inr (''    <channel id="'' @ tvg_id @ ''">\<newline>'' @
          ''        <display-name>'' @ tvg_name @ ''</display-name>\<newline>'' @
          ''        <icon src="'' @ tvg_logo @ ''"/>\<newline>'' @
          ''    </channel>\<newline>'')\<close>
| \<open>channel_xml _ = Inl ValueError\<close>

text \<open>The programme template of the source; each of its lines ends with an apostrophe.\<close>

definition programme_text :: "string \<Rightarrow> string \<Rightarrow> string \<Rightarrow> string \<Rightarrow> string \<Rightarrow> string" where
  \<open>programme_text tvg_id epg_title epg_start epg_stop epg_desc =
     ''    <programme channel="'' @ tvg_id @ ''" start="'' @ epg_start @ ''" stop="'' @ epg_stop @
       ''">'' @ [CHR 0x27] @ ''\<newline>'' @
     ''        <title lang="en">'' @ epg_title @ ''</title>'' @ [CHR 0x27] @ ''\<newline>'' @
     ''        <desc lang="en">'' @ epg_desc @ ''</desc>'' @ [CHR 0x27] @ ''\<newline>'' @
     ''    </programme>'' @ [CHR 0x27] @ ''\<newline>''\<close>

text \<open>Five values are unpacked into five names, any other number into six.\<close>

definition program_xml :: "string list \<Rightarrow> error + string" where
  "program_xml vs =
     (if length vs = 5 then
        (case vs of
           [tvg_id, epg_title, epg_start, epg_stop, epg_desc] \<Rightarrow>
             Inr (programme_text tvg_id epg_title epg_start epg_stop epg_desc)
         | _ \<Rightarrow> Inl ValueError)
      else
        (case vs of
           [tvg_id, epg_title, epg_start, epg_stop, epg_desc, epg_icon] \<Rightarrow>
             Inr (programme_text tvg_id epg_title epg_start epg_stop epg_desc)
         | _ \<Rightarrow> Inl ValueError))"

text \<open>The two loops; \<open>acc\<close> is \<^verbatim>\<open>xml_channels\<close> (\<^verbatim>\<open>xml_programs\<close>) so far.\<close>

fun channels_loop :: "string \<Rightarrow> pydict list \<Rightarrow> error + string" where
  "channels_loop acc [] = Inr acc"
| "channels_loop acc (channel # cs) =
     (case channel_xml (dict_values channel) of
        Inl e \<Rightarrow> Inl e
      | Inr x \<Rightarrow> channels_loop (acc @ x) cs)"

fun programs_loop :: "string \<Rightarrow> pydict list \<Rightarrow> error + string" where
  "programs_loop acc [] = Inr acc"
| "programs_loop acc (program # ps) =
     (case program_xml (dict_values program) of
        Inl e \<Rightarrow> Inl e
      | Inr x \<Rightarrow> programs_loop (acc @ x) ps)"

definition xml_header :: "string \<Rightarrow> string" where
  \<open>xml_header origin =
     ''<?xml version="1.0" encoding="utf-8" ?>\<newline>'' @
     ''<!DOCTYPE tv SYSTEM "xmltv.dtd">\<newline>'' @
     ''<tv generator-info-name="IPTV" generator-info-url="'' @ origin @ ''">\<newline>''\<close>

definition xml_footer :: "string" where
  "xml_footer = ''</tv>\<newline>''"

text \<open>
  \<open>furl_origin\<close> stands for \<^verbatim>\<open>furl(url).origin\<close> of the furl library, which is not
  part of this repository: \<open>Inr\<close> the text it gives for a URL, \<open>Inl\<close> the exception
  it raises for a URL it rejects (furl raises ValueError for a port that is not a
  number from 1 to 65535).  The header is the first thing \<^verbatim>\<open>gen_xmltv_xml\<close> computes, so
  an exception of furl is raised before any record is read.
\<close>

definition gen_xmltv_xml ::
  "(string \<Rightarrow> error + string) \<Rightarrow> pydict list \<Rightarrow> pydict list \<Rightarrow> string \<Rightarrow> error + string" where
  "gen_xmltv_xml furl_origin channels programs url =
     (case furl_origin url of
        Inl e \<Rightarrow> Inl e
      | Inr origin \<Rightarrow>
          (case channels_loop [] channels of
             Inl e \<Rightarrow> Inl e
           | Inr xml_channels \<Rightarrow>
               (case programs_loop [] programs of
                  Inl e \<Rightarrow> Inl e
                | Inr xml_programs \<Rightarrow>
                    Inr (xml_header origin @ xml_channels @ xml_programs @ xml_footer))))"

section \<open>Predicates of the specification\<close>

text \<open>
  The definitions of this section are not code of the repository: they say in plain
  terms what a pattern accepts, so that properties of the matcher can be stated.

  \<open>shape ts s\<close>: some prefix of \<open>s\<close> has the form the tokens \<open>ts\<close> describe.
\<close>

fun shape :: "tok list \<Rightarrow> string \<Rightarrow> bool" where
  "shape [] s = True"
| "shape (Lit c # ts) s = (\<exists>r. s = c # r \<and> shape ts r)"
| "shape (Cls P # ts) s = (\<exists>x r. s = x # r \<and> P x \<and> shape ts r)"
| "shape (Star P # ts) s = (\<exists>a r. s = a @ r \<and> list_all P a \<and> shape ts r)"
| "shape (Plus P # ts) s = (\<exists>a r. s = a @ r \<and> a \<noteq> [] \<and> list_all P a \<and> shape ts r)"
| "shape (Open g # ts) s = shape ts s"
| "shape (Close g # ts) s = shape ts s"

text \<open>\<open>closes_ok os ts\<close>: every closing parenthesis of \<open>ts\<close> has its opening one before it, or in \<open>os\<close>.\<close>

fun closes_ok :: "string list \<Rightarrow> tok list \<Rightarrow> bool" where
  "closes_ok os [] = True"
| "closes_ok os (Open g # ts) = closes_ok (g # os) ts"
| "closes_ok os (Close g # ts) = (g \<in> set os \<and> closes_ok os ts)"
| "closes_ok os (t # ts) = closes_ok os ts"

text \<open>
  A line matches the header pattern when it holds, anywhere, the text
  \<^verbatim>\<open>#EXTM3U url-tvg="a" x-tvg-url="b"\<close> for some \<open>a\<close> and \<open>b\<close>.
\<close>

definition header_shape :: "string \<Rightarrow> bool" where
  \<open>header_shape line \<longleftrightarrow>
     (\<exists>pre a b post.
        line = pre @ ''#EXTM3U url-tvg="'' @ a @ ''" x-tvg-url="'' @ b @ ''"'' @ post \<and>
        LF \<notin> set a \<and> LF \<notin> set b)\<close>

text \<open>The input has a first line, and that line matches the header pattern.\<close>

definition first_line_matches :: "string \<Rightarrow> bool" where
  "first_line_matches src \<longleftrightarrow>
     (case splitlines src of [] \<Rightarrow> False | line # body \<Rightarrow> header_shape line)"

text \<open>\<open>occurs w s\<close>: the text \<open>w\<close> stands somewhere in \<open>s\<close>.\<close>

fun occurs :: "string \<Rightarrow> string \<Rightarrow> bool" where
  "occurs w [] = (w = [])"
| "occurs w (x # xs) = (take (length w) (x # xs) = w \<or> occurs w xs)"

section \<open>Dictionaries and the pairing of lines\<close>

lemma map_of_dict_set: "map_of (dict_set k v d) = (map_of d)(k \<mapsto> v)"
  by (induction d) (auto simp: fun_eq_iff)

lemma set_dict_set: "set (dict_set k v d) \<subseteq> insert (k, v) (set d)"
  by (induction d) (auto split: if_splits)

lemma fold_dict_set_subset:
  "set (fold (\<lambda>(k, v). dict_set k v) items d) \<subseteq> set d \<union> set items"
proof (induction items arbitrary: d)
  case Nil
  show ?case by simp
next
  case (Cons kv items)
  obtain k v where kv: "kv = (k, v)" by (cases kv)
  from Cons.IH [of "dict_set k v d"] set_dict_set [of k v d] show ?case
    unfolding kv by auto
qed

lemma dict_update_subset: "set (dict_update d items) \<subseteq> set d \<union> set items"
  unfolding dict_update_def by (rule fold_dict_set_subset)

lemma map_of_fold_dict_set:
  "map_of (fold (\<lambda>(k, v). dict_set k v) items d) = map_of d ++ map_of (rev items)"
proof (induction items arbitrary: d)
  case Nil
  show ?case by simp
next
  case (Cons kv items)
  obtain k v where kv: "kv = (k, v)" by (cases kv)
  show ?case
    unfolding kv by (simp add: Cons.IH map_of_dict_set fun_eq_iff map_add_def split: option.splits)
qed

lemma map_of_dict_update: "map_of (dict_update d items) = map_of d ++ map_of (rev items)"
  unfolding dict_update_def by (rule map_of_fold_dict_set)

lemma length_step2: "length (step2 xs) = (length xs + 1) div 2"
  by (induction xs rule: step2.induct) simp_all

lemma nth_step2: "2 * i < length xs \<Longrightarrow> step2 xs ! i = xs ! (2 * i)"
proof (induction xs arbitrary: i rule: step2.induct)
  case 1
  then show ?case by simp
next
  case (2 x)
  then show ?case by simp
next
  case (3 x y xs)
  show ?case
  proof (cases i)
    case 0
    then show ?thesis by simp
  next
    case (Suc j)
    with 3 show ?thesis by simp
  qed
qed

lemma length_pair_lines: "length (pair_lines temp) = length temp div 2"
  unfolding pair_lines_def by (simp add: length_step2)

lemma nth_pair_lines:
  assumes "i < length temp div 2"
  shows "pair_lines temp ! i = temp ! (2 * i) @ [LF] @ temp ! (2 * i + 1)"
proof -
  from assms have a: "2 * i < length temp" and b: "2 * i < length (drop 1 temp)"
    by simp_all
  from assms have c: "i < length (zip (step2 temp) (step2 (drop 1 temp)))"
    by (simp add: length_step2)
  have "step2 (drop 1 temp) ! i = temp ! (2 * i + 1)"
    using nth_step2 [OF b] a by (simp add: add.commute)
  with nth_step2 [OF a] c show ?thesis
    unfolding pair_lines_def by simp
qed

lemma pair_lines_butlast:
  assumes "odd (length temp)"
  shows "pair_lines (butlast temp) = pair_lines temp"
proof (rule nth_equalityI)
  from assms show len: "length (pair_lines (butlast temp)) = length (pair_lines temp)"
    by (auto simp: length_pair_lines elim!: oddE)
  fix i
  assume "i < length (pair_lines (butlast temp))"
  then have i: "i < length (butlast temp) div 2" and i': "i < length temp div 2"
    using len by (simp_all add: length_pair_lines)
  from i have "2 * i < length (butlast temp)" and "2 * i + 1 < length (butlast temp)"
    by simp_all
  then have "butlast temp ! (2 * i) = temp ! (2 * i)"
    and "butlast temp ! (2 * i + 1) = temp ! (2 * i + 1)"
    by (simp_all add: nth_butlast)
  then show "pair_lines (butlast temp) ! i = pair_lines temp ! i"
    by (simp add: nth_pair_lines [OF i] nth_pair_lines [OF i'])
qed

lemma m3u_data_unfold:
  "m3u_data src =
     (case splitlines src of
        [] \<Rightarrow> Inl IndexError
      | temp_info # temp \<Rightarrow>
          (case re_search regex_info temp_info 0 of
             None \<Rightarrow> Inl AttributeError
           | Some m \<Rightarrow>
               Inr (JObject
                 [(''url_tvg'', info_json (map_of (m_groups m) ''url_tvg'')),
                  (''x_tvg_url'', info_json (map_of (m_groups m) ''x_tvg_url'')),
                  (''streams'', JArray (parse_streams temp))])))"
  unfolding m3u_data_def
  by (simp add: dict_update_def groupdict_def info_names_def Let_def split: list.splits option.splits)

section \<open>The matcher\<close>

lemma runs_Lit_mem:
  "st' \<in> set (runs (Lit c # ts) st) \<longleftrightarrow>
     (\<exists>xs. rest st = c # xs \<and> st' \<in> set (runs ts (st\<lparr>rest := xs\<rparr>)))"
  by (cases "rest st") auto

lemma runs_Cls_mem:
  "st' \<in> set (runs (Cls P # ts) st) \<longleftrightarrow>
     (\<exists>x xs. rest st = x # xs \<and> P x \<and> st' \<in> set (runs ts (st\<lparr>rest := xs\<rparr>)))"
  by (cases "rest st") auto

lemma runs_Star_mem:
  "st' \<in> set (runs (Star P # ts) st) \<longleftrightarrow>
     (\<exists>k \<le> length (takeWhile P (rest st)). st' \<in> set (runs ts (st\<lparr>rest := drop k (rest st)\<rparr>)))"
  by (simp del: upt_Suc add: Bex_def less_Suc_eq_le)

lemma runs_Plus_mem:
  "st' \<in> set (runs (Plus P # ts) st) \<longleftrightarrow>
     (\<exists>k. 1 \<le> k \<and> k \<le> length (takeWhile P (rest st)) \<and>
          st' \<in> set (runs ts (st\<lparr>rest := drop k (rest st)\<rparr>)))"
  by (simp del: upt_Suc add: Bex_def less_Suc_eq_le Suc_le_eq)

lemma runs_Close_mem:
  "st' \<in> set (runs (Close g # ts) st) \<longleftrightarrow>
     (\<exists>s0. map_of (opened st) g = Some s0 \<and>
        st' \<in> set (runs ts (st\<lparr>groups := dict_set g (take (length s0 - length (rest st)) s0) (groups st)\<rparr>)))"
  by (cases "map_of (opened st) g") auto

lemmas runs_mem = runs_Lit_mem runs_Cls_mem runs_Star_mem runs_Plus_mem runs_Close_mem

lemma runs_rest: "st' \<in> set (runs ts st) \<Longrightarrow> \<exists>n. rest st' = drop n (rest st)"
proof (induction ts arbitrary: st)
  case Nil
  then have "rest st' = drop 0 (rest st)" by simp
  then show ?case by blast
next
  case (Cons t ts)
  show ?case
  proof (cases t)
    case (Lit c)
    with Cons.prems have "\<exists>xs. rest st = c # xs \<and> st' \<in> set (runs ts (st\<lparr>rest := xs\<rparr>))"
      by (simp only: runs_Lit_mem)
    then obtain xs where r: "rest st = c # xs" and m: "st' \<in> set (runs ts (st\<lparr>rest := xs\<rparr>))"
      by blast
    from Cons.IH [OF m] obtain n where "rest st' = drop n xs" by auto
    with r have "rest st' = drop (Suc n) (rest st)" by simp
    then show ?thesis by blast
  next
    case (Cls P)
    with Cons.prems have "\<exists>x xs. rest st = x # xs \<and> P x \<and> st' \<in> set (runs ts (st\<lparr>rest := xs\<rparr>))"
      by (simp only: runs_Cls_mem)
    then obtain x xs where r: "rest st = x # xs"
      and m: "st' \<in> set (runs ts (st\<lparr>rest := xs\<rparr>))"
      by blast
    from Cons.IH [OF m] obtain n where "rest st' = drop n xs" by auto
    with r have "rest st' = drop (Suc n) (rest st)" by simp
    then show ?thesis by blast
  next
    case (Star P)
    with Cons.prems obtain k where m: "st' \<in> set (runs ts (st\<lparr>rest := drop k (rest st)\<rparr>))"
      by (auto simp: runs_Star_mem)
    from Cons.IH [OF m] obtain n where "rest st' = drop n (drop k (rest st))" by auto
    then have "rest st' = drop (n + k) (rest st)" by simp
    then show ?thesis by blast
  next
    case (Plus P)
    with Cons.prems obtain k where m: "st' \<in> set (runs ts (st\<lparr>rest := drop k (rest st)\<rparr>))"
      by (auto simp: runs_Plus_mem)
    from Cons.IH [OF m] obtain n where "rest st' = drop n (drop k (rest st))" by auto
    then have "rest st' = drop (n + k) (rest st)" by simp
    then show ?thesis by blast
  next
    case (Open g)
    with Cons.prems Cons.IH [of "st\<lparr>opened := (g, rest st) # opened st\<rparr>"] show ?thesis by simp
  next
    case (Close g)
    with Cons.prems obtain gs where "st' \<in> set (runs ts (st\<lparr>groups := gs\<rparr>))"
      by (auto simp: runs_Close_mem)
    from Cons.IH [OF this] show ?thesis by simp
  qed
qed

lemma runs_groups_other:
  "st' \<in> set (runs ts st) \<Longrightarrow> Close g \<notin> set ts \<Longrightarrow> map_of (groups st') g = map_of (groups st) g"
proof (induction ts arbitrary: st)
  case Nil
  then show ?case by simp
next
  case (Cons t ts)
  from Cons.prems have nc: "Close g \<notin> set ts" by simp
  show ?case
  proof (cases t)
    case (Lit c)
    with Cons.prems obtain xs where m: "st' \<in> set (runs ts (st\<lparr>rest := xs\<rparr>))"
      by (auto simp: runs_Lit_mem)
    from Cons.IH [OF m nc] show ?thesis by simp
  next
    case (Cls P)
    with Cons.prems obtain xs where m: "st' \<in> set (runs ts (st\<lparr>rest := xs\<rparr>))"
      by (auto simp: runs_Cls_mem)
    from Cons.IH [OF m nc] show ?thesis by simp
  next
    case (Star P)
    with Cons.prems obtain k where m: "st' \<in> set (runs ts (st\<lparr>rest := drop k (rest st)\<rparr>))"
      by (auto simp: runs_Star_mem)
    from Cons.IH [OF m nc] show ?thesis by simp
  next
    case (Plus P)
    with Cons.prems obtain k where m: "st' \<in> set (runs ts (st\<lparr>rest := drop k (rest st)\<rparr>))"
      by (auto simp: runs_Plus_mem)
    from Cons.IH [OF m nc] show ?thesis by simp
  next
    case (Open h)
    with Cons.prems Cons.IH [of "st\<lparr>opened := (h, rest st) # opened st\<rparr>"] nc show ?thesis by simp
  next
    case (Close h)
    with Cons.prems obtain v where m: "st' \<in> set (runs ts (st\<lparr>groups := dict_set h v (groups st)\<rparr>))"
      by (auto simp: runs_Close_mem)
    from Close Cons.prems have "h \<noteq> g" by auto
    with Cons.IH [OF m nc] show ?thesis by (simp add: map_of_dict_set)
  qed
qed

text \<open>A group that is closed in the pattern has a value in every success.\<close>

lemma runs_groups_closed:
  "st' \<in> set (runs ts st) \<Longrightarrow> Close g \<in> set ts \<or> map_of (groups st) g \<noteq> None \<Longrightarrow>
     map_of (groups st') g \<noteq> None"
proof (induction ts arbitrary: st)
  case Nil
  then show ?case by simp
next
  case (Cons t ts)
  show ?case
  proof (cases t)
    case (Lit c)
    with Cons.prems obtain xs where m: "st' \<in> set (runs ts (st\<lparr>rest := xs\<rparr>))"
      by (auto simp: runs_Lit_mem)
    from Cons.IH [OF m] Cons.prems(2) Lit show ?thesis by simp
  next
    case (Cls P)
    with Cons.prems obtain xs where m: "st' \<in> set (runs ts (st\<lparr>rest := xs\<rparr>))"
      by (auto simp: runs_Cls_mem)
    from Cons.IH [OF m] Cons.prems(2) Cls show ?thesis by simp
  next
    case (Star P)
    with Cons.prems obtain k where m: "st' \<in> set (runs ts (st\<lparr>rest := drop k (rest st)\<rparr>))"
      by (auto simp: runs_Star_mem)
    from Cons.IH [OF m] Cons.prems(2) Star show ?thesis by simp
  next
    case (Plus P)
    with Cons.prems obtain k where m: "st' \<in> set (runs ts (st\<lparr>rest := drop k (rest st)\<rparr>))"
      by (auto simp: runs_Plus_mem)
    from Cons.IH [OF m] Cons.prems(2) Plus show ?thesis by simp
  next
    case (Open h)
    with Cons.prems Cons.IH [of "st\<lparr>opened := (h, rest st) # opened st\<rparr>"] show ?thesis by simp
  next
    case (Close h)
    with Cons.prems obtain v where m: "st' \<in> set (runs ts (st\<lparr>groups := dict_set h v (groups st)\<rparr>))"
      by (auto simp: runs_Close_mem)
    from Cons.IH [OF m] Cons.prems(2) Close show ?thesis by (auto simp: map_of_dict_set)
  qed
qed

lemma runs_lits:
  "runs (lits w @ ts) st =
     (if take (length w) (rest st) = w then runs ts (st\<lparr>rest := drop (length w) (rest st)\<rparr>) else [])"
proof (induction w arbitrary: st)
  case Nil
  show ?case by (simp add: lits_def)
next
  case (Cons c w)
  have l: "lits (c # w) @ ts = Lit c # (lits w @ ts)" by (simp add: lits_def)
  show ?case
    unfolding l by (cases "rest st") (simp_all add: Cons.IH)
qed

section \<open>What a pattern accepts\<close>

lemma take_le_takeWhile:
  assumes k: "k \<le> length (takeWhile P s)"
  shows "list_all P (take k s)"
proof -
  have "take k (takeWhile P s @ dropWhile P s) = take k (takeWhile P s)"
    using k by (simp only: take_append) simp
  then have e: "take k s = take k (takeWhile P s)" by simp
  have "set (take k (takeWhile P s)) \<subseteq> set (takeWhile P s)"
    by (rule set_take_subset)
  then have "\<forall>c \<in> set (take k (takeWhile P s)). P c"
    by (auto dest: set_takeWhileD)
  then show ?thesis
    unfolding e by (simp add: list_all_iff)
qed

lemma prefix_le_takeWhile: "list_all P a \<Longrightarrow> length a \<le> length (takeWhile P (a @ r))"
  by (simp add: list_all_iff takeWhile_append2)

lemma greedy_split:
  "(\<exists>k \<le> length (takeWhile P s). Q (drop k s)) \<longleftrightarrow> (\<exists>a r. s = a @ r \<and> list_all P a \<and> Q r)"
proof
  assume "\<exists>k \<le> length (takeWhile P s). Q (drop k s)"
  then obtain k where k: "k \<le> length (takeWhile P s)" and q: "Q (drop k s)" by blast
  have "s = take k s @ drop k s" by simp
  with take_le_takeWhile [OF k] q show "\<exists>a r. s = a @ r \<and> list_all P a \<and> Q r" by blast
next
  assume "\<exists>a r. s = a @ r \<and> list_all P a \<and> Q r"
  then obtain a r where s: "s = a @ r" and a: "list_all P a" and q: "Q r" by blast
  from prefix_le_takeWhile [OF a, of r] s q show "\<exists>k \<le> length (takeWhile P s). Q (drop k s)"
    by (intro exI [of _ "length a"]) simp
qed

lemma greedy_split1:
  "(\<exists>k. 1 \<le> k \<and> k \<le> length (takeWhile P s) \<and> Q (drop k s)) \<longleftrightarrow>
     (\<exists>a r. s = a @ r \<and> a \<noteq> [] \<and> list_all P a \<and> Q r)"
proof
  assume "\<exists>k. 1 \<le> k \<and> k \<le> length (takeWhile P s) \<and> Q (drop k s)"
  then obtain k where k1: "1 \<le> k" and k: "k \<le> length (takeWhile P s)" and q: "Q (drop k s)"
    by blast
  have s: "s = take k s @ drop k s" by simp
  from k k1 have "k \<le> length s" and "0 < k"
    using length_takeWhile_le [of P s] by simp_all
  then have "take k s \<noteq> []" by auto
  with s take_le_takeWhile [OF k] q show "\<exists>a r. s = a @ r \<and> a \<noteq> [] \<and> list_all P a \<and> Q r"
    by blast
next
  assume "\<exists>a r. s = a @ r \<and> a \<noteq> [] \<and> list_all P a \<and> Q r"
  then obtain a r where s: "s = a @ r" and n: "a \<noteq> []" and a: "list_all P a" and q: "Q r"
    by blast
  from n have "1 \<le> length a" by (cases a) simp_all
  with prefix_le_takeWhile [OF a, of r] s q
  show "\<exists>k. 1 \<le> k \<and> k \<le> length (takeWhile P s) \<and> Q (drop k s)"
    by (intro exI [of _ "length a"]) simp
qed

lemma runs_nonempty_iff:
  "closes_ok (map fst (opened st)) ts \<Longrightarrow> runs ts st \<noteq> [] \<longleftrightarrow> shape ts (rest st)"
proof (induction ts arbitrary: st)
  case Nil
  show ?case by simp
next
  case (Cons t ts)
  show ?case
  proof (cases t)
    case (Lit c)
    with Cons.prems have ok: "\<And>xs. closes_ok (map fst (opened (st\<lparr>rest := xs\<rparr>))) ts" by simp
    show ?thesis
      unfolding Lit using Cons.IH [OF ok] by (cases "rest st") auto
  next
    case (Cls P)
    with Cons.prems have ok: "\<And>xs. closes_ok (map fst (opened (st\<lparr>rest := xs\<rparr>))) ts" by simp
    show ?thesis
      unfolding Cls using Cons.IH [OF ok] by (cases "rest st") auto
  next
    case (Star P)
    with Cons.prems have ok: "\<And>xs. closes_ok (map fst (opened (st\<lparr>rest := xs\<rparr>))) ts" by simp
    have "runs (Star P # ts) st \<noteq> [] \<longleftrightarrow>
        (\<exists>k \<le> length (takeWhile P (rest st)). runs ts (st\<lparr>rest := drop k (rest st)\<rparr>) \<noteq> [])"
      by (simp del: upt_Suc add: Bex_def less_Suc_eq_le)
    also have "\<dots> \<longleftrightarrow> (\<exists>k \<le> length (takeWhile P (rest st)). shape ts (drop k (rest st)))"
      using Cons.IH [OF ok] by simp
    also have "\<dots> \<longleftrightarrow> shape (Star P # ts) (rest st)"
      by (simp add: greedy_split)
    finally show ?thesis unfolding Star .
  next
    case (Plus P)
    with Cons.prems have ok: "\<And>xs. closes_ok (map fst (opened (st\<lparr>rest := xs\<rparr>))) ts" by simp
    have "runs (Plus P # ts) st \<noteq> [] \<longleftrightarrow>
        (\<exists>k. 1 \<le> k \<and> k \<le> length (takeWhile P (rest st)) \<and> runs ts (st\<lparr>rest := drop k (rest st)\<rparr>) \<noteq> [])"
      by (simp del: upt_Suc add: Bex_def less_Suc_eq_le Suc_le_eq)
    also have "\<dots> \<longleftrightarrow> (\<exists>k. 1 \<le> k \<and> k \<le> length (takeWhile P (rest st)) \<and> shape ts (drop k (rest st)))"
      using Cons.IH [OF ok] by simp
    also have "\<dots> \<longleftrightarrow> shape (Plus P # ts) (rest st)"
      unfolding shape.simps by (rule greedy_split1)
    finally show ?thesis unfolding Plus .
  next
    case (Open g)
    with Cons.prems have ok: "closes_ok (map fst (opened (st\<lparr>opened := (g, rest st) # opened st\<rparr>))) ts"
      by simp
    show ?thesis
      unfolding Open using Cons.IH [OF ok] by simp
  next
    case (Close g)
    with Cons.prems have g: "g \<in> fst ` set (opened st)"
      and ok: "\<And>gs. closes_ok (map fst (opened (st\<lparr>groups := gs\<rparr>))) ts" by simp_all
    from g obtain s0 where "map_of (opened st) g = Some s0"
      by (cases "map_of (opened st) g") (auto simp: map_of_eq_None_iff)
    then show ?thesis
      unfolding Close using Cons.IH [OF ok] by simp
  qed
qed

lemma re_search_Some_iff:
  "re_search alts s p \<noteq> None \<longleftrightarrow> (\<exists>pre r. s = pre @ r \<and> match_here alts r \<noteq> None)"
proof (induction s arbitrary: p)
  case Nil
  show ?case by (auto split: option.splits)
next
  case (Cons x xs)
  show ?case
  proof (cases "match_here alts (x # xs)")
    case (Some m)
    then have "x # xs = [] @ (x # xs) \<and> match_here alts (x # xs) \<noteq> None" by simp
    then have "\<exists>pre r. x # xs = pre @ r \<and> match_here alts r \<noteq> None" by blast
    with Some show ?thesis by (auto split: prod.splits)
  next
    case None
    have "(\<exists>pre r. x # xs = pre @ r \<and> match_here alts r \<noteq> None) \<longleftrightarrow>
        (\<exists>pre r. xs = pre @ r \<and> match_here alts r \<noteq> None)"
    proof
      assume "\<exists>pre r. x # xs = pre @ r \<and> match_here alts r \<noteq> None"
      then obtain pre r where e: "x # xs = pre @ r" and m: "match_here alts r \<noteq> None" by blast
      from e m None obtain pre' where "pre = x # pre'" by (cases pre) auto
      with e m show "\<exists>pre r. xs = pre @ r \<and> match_here alts r \<noteq> None" by auto
    next
      assume "\<exists>pre r. xs = pre @ r \<and> match_here alts r \<noteq> None"
      then obtain pre r where "xs = pre @ r" and m: "match_here alts r \<noteq> None" by blast
      then have "x # xs = (x # pre) @ r" by simp
      with m show "\<exists>pre r. x # xs = pre @ r \<and> match_here alts r \<noteq> None" by blast
    qed
    with None Cons.IH [of "Suc p"] show ?thesis by simp
  qed
qed

lemma shape_lits: "shape (lits w @ ts) s \<longleftrightarrow> (\<exists>r. s = w @ r \<and> shape ts r)"
proof (induction w arbitrary: s)
  case Nil
  show ?case by (simp add: lits_def)
next
  case (Cons c w)
  have "shape (lits (c # w) @ ts) s \<longleftrightarrow> (\<exists>r. s = c # r \<and> shape (lits w @ ts) r)"
    by (simp add: lits_def)
  also have "\<dots> \<longleftrightarrow> (\<exists>r. s = c # r \<and> (\<exists>r'. r = w @ r' \<and> shape ts r'))"
    by (simp only: Cons.IH)
  also have "\<dots> \<longleftrightarrow> (\<exists>r'. s = (c # w) @ r' \<and> shape ts r')"
    by auto
  finally show ?case .
qed

lemma shape_two_groups:
  "shape (lits w1 @ [Open u, Star P, Close u] @ lits w2 @ [Open x, Star Q, Close x] @ lits w3) s \<longleftrightarrow>
     (\<exists>a b post. s = w1 @ a @ w2 @ b @ w3 @ post \<and> list_all P a \<and> list_all Q b)"
proof -
  have "shape (lits w1 @ [Open u, Star P, Close u] @ lits w2 @ [Open x, Star Q, Close x] @ lits w3) s \<longleftrightarrow>
      (\<exists>r. s = w1 @ r \<and> (\<exists>a r1. r = a @ r1 \<and> list_all P a \<and>
         (\<exists>r2. r1 = w2 @ r2 \<and> (\<exists>b r3. r2 = b @ r3 \<and> list_all Q b \<and> (\<exists>r4. r3 = w3 @ r4)))))"
    using shape_lits [of w3 "[]"] by (simp add: shape_lits)
  also have "\<dots> \<longleftrightarrow> (\<exists>a b post. s = w1 @ a @ w2 @ b @ w3 @ post \<and> list_all P a \<and> list_all Q b)"
    by blast
  finally show ?thesis .
qed

lemma list_all_dot: "list_all dot a \<longleftrightarrow> LF \<notin> set a"
  by (auto simp: dot_def list_all_iff)

lemma header_match_here:
  \<open>match_here regex_info s \<noteq> None \<longleftrightarrow>
     (\<exists>a b post. s = ''#EXTM3U url-tvg="'' @ a @ ''" x-tvg-url="'' @ b @ ''"'' @ post \<and>
        LF \<notin> set a \<and> LF \<notin> set b)\<close>
proof -
  have ok: "closes_ok (map fst (opened \<lparr>rest = s, opened = [], groups = []\<rparr>)) (hd regex_info)"
    by (simp add: regex_info_def lits_def)
  have "match_here regex_info s \<noteq> None \<longleftrightarrow> runs (hd regex_info) \<lparr>rest = s, opened = [], groups = []\<rparr> \<noteq> []"
    by (simp add: regex_info_def split: list.splits)
  also have "\<dots> \<longleftrightarrow> shape (hd regex_info) s"
    using runs_nonempty_iff [OF ok] by simp
  also have \<open>\<dots> \<longleftrightarrow> (\<exists>a b post. s = ''#EXTM3U url-tvg="'' @ a @ ''" x-tvg-url="'' @ b @ ''"'' @ post \<and>
        list_all dot a \<and> list_all dot b)\<close>
    unfolding regex_info_def list.sel by (rule shape_two_groups)
  finally show ?thesis unfolding list_all_dot .
qed

lemma re_search_header:
  "re_search regex_info line p \<noteq> None \<longleftrightarrow> header_shape line"
  unfolding re_search_Some_iff header_match_here header_shape_def
  by blast

section \<open>The header line\<close>

lemma match_here_mem:
  "match_here alts s = Some (gs, r) \<Longrightarrow>
     \<exists>a \<in> set alts. \<exists>st' \<in> set (runs a \<lparr>rest = s, opened = [], groups = []\<rparr>).
        gs = groups st' \<and> r = rest st'"
proof (induction alts)
  case Nil
  then show ?case by simp
next
  case (Cons a alts)
  show ?case
  proof (cases "runs a \<lparr>rest = s, opened = [], groups = []\<rparr>")
    case Nil
    with Cons show ?thesis by auto
  next
    case (Cons st' sts)
    with Cons.prems have "gs = groups st'" and "r = rest st'" by simp_all
    moreover from Cons have "st' \<in> set (runs a \<lparr>rest = s, opened = [], groups = []\<rparr>)" by simp
    ultimately show ?thesis by auto
  qed
qed

lemma match_here_hd:
  "match_here alts s = Some (gs, r) \<Longrightarrow>
     \<exists>a \<in> set alts. \<exists>st' sts. runs a \<lparr>rest = s, opened = [], groups = []\<rparr> = st' # sts \<and>
        gs = groups st' \<and> r = rest st'"
proof (induction alts)
  case Nil
  then show ?case by simp
next
  case (Cons a alts)
  show ?case
  proof (cases "runs a \<lparr>rest = s, opened = [], groups = []\<rparr>")
    case Nil
    with Cons show ?thesis by auto
  next
    case (Cons st' sts)
    with Cons.prems have "gs = groups st'" and "r = rest st'" by simp_all
    with Cons show ?thesis by auto
  qed
qed

lemma match_here_suffix:
  assumes "match_here alts s = Some (gs, r)"
  shows "r = drop (length s - length r) s"
proof -
  from match_here_mem [OF assms] obtain a st'
    where "st' \<in> set (runs a \<lparr>rest = s, opened = [], groups = []\<rparr>)" and r: "r = rest st'"
    by blast
  from runs_rest [OF this(1)] r obtain n where n: "r = drop n s" by auto
  show ?thesis
  proof (cases "n \<le> length s")
    case True
    with n show ?thesis by simp
  next
    case False
    with n show ?thesis by simp
  qed
qed

lemma re_search_Some_match:
  "re_search alts s p = Some m \<Longrightarrow> \<exists>r r'. match_here alts r = Some (m_groups m, r')"
proof (induction s arbitrary: p)
  case Nil
  then obtain gs r where "match_here alts [] = Some (gs, r)" and "m_groups m = gs"
    by (auto split: option.splits)
  then show ?case by blast
next
  case (Cons x xs)
  show ?case
  proof (cases "match_here alts (x # xs)")
    case None
    with Cons.prems have "re_search alts xs (Suc p) = Some m" by simp
    from Cons.IH [OF this] show ?thesis .
  next
    case (Some gr)
    obtain gs r where "gr = (gs, r)" by (cases gr)
    with Some Cons.prems have "match_here alts (x # xs) = Some (m_groups m, r)" by auto
    then show ?thesis by blast
  qed
qed

lemma header_groups:
  assumes "re_search regex_info line p = Some m"
  shows "\<exists>a b. map_of (m_groups m) ''url_tvg'' = Some a \<and> map_of (m_groups m) ''x_tvg_url'' = Some b"
proof -
  from re_search_Some_match [OF assms] obtain r r'
    where "match_here regex_info r = Some (m_groups m, r')" by blast
  from match_here_mem [OF this] obtain st'
    where st': "st' \<in> set (runs (hd regex_info) \<lparr>rest = r, opened = [], groups = []\<rparr>)"
      and g: "m_groups m = groups st'"
    by (auto simp: regex_info_def)
  have "map_of (groups st') ''url_tvg'' \<noteq> None"
    by (rule runs_groups_closed [OF st']) (simp add: regex_info_def lits_def)
  moreover have "map_of (groups st') ''x_tvg_url'' \<noteq> None"
    by (rule runs_groups_closed [OF st']) (simp add: regex_info_def lits_def)
  ultimately show ?thesis unfolding g by auto
qed

lemma m3u_data_ok:
  assumes "splitlines src = line # body" and "header_shape line"
  shows "\<exists>a b. m3u_data src =
     Inr (JObject [(''url_tvg'', JString a), (''x_tvg_url'', JString b),
                   (''streams'', JArray (parse_streams body))])"
proof -
  from assms(2) have "re_search regex_info line 0 \<noteq> None"
    by (simp only: re_search_header)
  then obtain m where m: "re_search regex_info line 0 = Some m" by auto
  from header_groups [OF m] obtain a b
    where "map_of (m_groups m) ''url_tvg'' = Some a" and "map_of (m_groups m) ''x_tvg_url'' = Some b"
    by blast
  with assms(1) m show ?thesis
    by (simp add: m3u_data_unfold info_json_def)
qed

lemma m3u_data_fail:
  "\<not> first_line_matches src \<Longrightarrow> m3u_data src = Inl IndexError \<or> m3u_data src = Inl AttributeError"
proof (cases "splitlines src")
  case Nil
  then show ?thesis by (simp add: m3u_data_unfold)
next
  case (Cons line body)
  assume "\<not> first_line_matches src"
  with Cons have "\<not> header_shape line" by (simp add: first_line_matches_def)
  then have "re_search regex_info line 0 = None"
    using re_search_header [of line 0] by simp
  with Cons show ?thesis by (simp add: m3u_data_unfold)
qed

lemma m3u_data_Inr_iff: "(\<exists>d. m3u_data src = Inr d) \<longleftrightarrow> first_line_matches src"
proof
  assume d: "\<exists>d. m3u_data src = Inr d"
  show "first_line_matches src"
  proof (rule ccontr)
    assume "\<not> first_line_matches src"
    from m3u_data_fail [OF this] d show False by auto
  qed
next
  assume f: "first_line_matches src"
  then obtain line body where s: "splitlines src = line # body" and h: "header_shape line"
    by (auto simp: first_line_matches_def split: list.splits)
  from m3u_data_ok [OF s h] show "\<exists>d. m3u_data src = Inr d" by blast
qed

text \<open>
  C1: the parse returns a document exactly when the input has a first line and that line
  matches the header pattern; otherwise it raises (IndexError when there is no line at
  all, AttributeError when the search finds nothing) and returns nothing.
\<close>

theorem m3u_to_json_fails_iff_header:
  "(first_line_matches src \<longleftrightarrow> (\<exists>out. m3u_to_json src = Inr out)) \<and>
   (\<not> first_line_matches src \<longleftrightarrow>
      m3u_to_json src = Inl IndexError \<or> m3u_to_json src = Inl AttributeError)"
proof (cases "first_line_matches src")
  case True
  with m3u_data_Inr_iff [of src] obtain d where "m3u_data src = Inr d" by blast
  with True show ?thesis by (simp add: m3u_to_json_def)
next
  case False
  from m3u_data_fail [OF False] False show ?thesis by (auto simp: m3u_to_json_def)
qed

lemma header_example: \<open>first_line_matches ''#EXTM3U url-tvg="a" x-tvg-url="b"''\<close>
proof -
  have \<open>''#EXTM3U url-tvg="a" x-tvg-url="b"'' =
      [] @ ''#EXTM3U url-tvg="'' @ ''a'' @ ''" x-tvg-url="'' @ ''b'' @ ''"'' @ [] \<and>
      LF \<notin> set ''a'' \<and> LF \<notin> set ''b''\<close>
    by (simp add: LF_def)
  then have \<open>header_shape ''#EXTM3U url-tvg="a" x-tvg-url="b"''\<close>
    unfolding header_shape_def by blast
  then show ?thesis
    by (simp add: first_line_matches_def splitlines_def is_linebreak_def CR_def)
qed

theorem m3u_to_json_fails_iff_header_witness:
  \<open>first_line_matches ''#EXTM3U url-tvg="a" x-tvg-url="b"'' \<and>
   (\<exists>out. m3u_to_json ''#EXTM3U url-tvg="a" x-tvg-url="b"'' = Inr out) \<and>
   \<not> first_line_matches ''#EXTM3U'' \<and> m3u_to_json ''#EXTM3U'' = Inl AttributeError\<close>
proof -
  have a: \<open>m3u_to_json ''#EXTM3U'' = Inl AttributeError\<close>
    by (simp add: m3u_to_json_def m3u_data_unfold splitlines_def is_linebreak_def CR_def
        regex_info_def lits_def)
  with m3u_to_json_fails_iff_header [of "''#EXTM3U''"]
  have b: \<open>\<not> first_line_matches ''#EXTM3U''\<close> by simp
  from header_example m3u_to_json_fails_iff_header [of \<open>''#EXTM3U url-tvg="a" x-tvg-url="b"''\<close>]
  have \<open>\<exists>out. m3u_to_json ''#EXTM3U url-tvg="a" x-tvg-url="b"'' = Inr out\<close> by simp
  with header_example a b show ?thesis by simp
qed

section \<open>The matches of a line pair and its entry\<close>

declare finditer.simps [simp del]

lemma finditer_None:
  "match_here alts s = None \<Longrightarrow>
     finditer alts s p = (case s of [] \<Rightarrow> [] | x # xs \<Rightarrow> finditer alts xs (Suc p))"
  by (subst finditer.simps) simp

lemma finditer_Some:
  "match_here alts s = Some (gs, r) \<Longrightarrow>
     finditer alts s p =
       \<lparr>m_start = p, m_end = p + (length s - length r), m_groups = gs\<rparr> #
       (if length s - length r = 0
        then (case s of [] \<Rightarrow> [] | x # xs \<Rightarrow> finditer alts xs (Suc p))
        else finditer alts r (p + (length s - length r)))"
  by (subst finditer.simps) simp

lemma finditer_bounds:
  "m \<in> set (finditer alts s p) \<Longrightarrow> p \<le> m_start m \<and> m_start m \<le> m_end m"
proof (induction alts s p rule: finditer.induct)
  case (1 alts s p)
  show ?case
  proof (cases "match_here alts s")
    case None
    show ?thesis
    proof (cases s)
      case Nil
      with None "1.prems" show ?thesis by (simp add: finditer_None)
    next
      case (Cons x xs)
      with None "1.prems" have "m \<in> set (finditer alts xs (Suc p))" by (simp add: finditer_None)
      from "1.IH"(1) [OF None Cons this] show ?thesis by simp
    qed
  next
    case (Some gr)
    obtain gs r where gr: "gr = (gs, r)" by (cases gr)
    note f = finditer_Some [OF Some [unfolded gr], of p]
    let ?m0 = "\<lparr>m_start = p, m_end = p + (length s - length r), m_groups = gs\<rparr>"
    show ?thesis
    proof (cases "m = ?m0")
      case True
      then show ?thesis by simp
    next
      case False
      show ?thesis
      proof (cases "length s - length r = 0")
        case True
        with False f "1.prems" obtain x xs where s: "s = x # xs" and "m \<in> set (finditer alts xs (Suc p))"
          by (cases s) auto
        from "1.IH"(2) [OF Some gr [symmetric] True s this(2)] show ?thesis by simp
      next
        case n: False
        with False f "1.prems" have "m \<in> set (finditer alts r (p + (length s - length r)))"
          by auto
        from "1.IH"(3) [OF Some gr [symmetric] n this] show ?thesis by simp
      qed
    qed
  qed
qed

lemma finditer_sorted: "sorted_wrt (\<lambda>a b. m_end a \<le> m_start b) (finditer alts s p)"
proof (induction alts s p rule: finditer.induct)
  case (1 alts s p)
  show ?case
  proof (cases "match_here alts s")
    case None
    show ?thesis
    proof (cases s)
      case Nil
      with None show ?thesis by (simp add: finditer_None)
    next
      case (Cons x xs)
      with None "1.IH"(1) [OF None Cons] show ?thesis by (simp add: finditer_None)
    qed
  next
    case (Some gr)
    obtain gs r where gr: "gr = (gs, r)" by (cases gr)
    note f = finditer_Some [OF Some [unfolded gr], of p]
    show ?thesis
    proof (cases "length s - length r = 0")
      case True
      show ?thesis
      proof (cases s)
        case Nil
        with True f show ?thesis by simp
      next
        case (Cons x xs)
        have "\<forall>m \<in> set (finditer alts xs (Suc p)). p \<le> m_start m"
          using finditer_bounds [of _ alts xs "Suc p"] by (auto dest: Suc_leD)
        with True f Cons "1.IH"(2) [OF Some gr [symmetric] True Cons] show ?thesis by simp
      qed
    next
      case n: False
      have "\<forall>m \<in> set (finditer alts r (p + (length s - length r))). p + (length s - length r) \<le> m_start m"
        using finditer_bounds [of _ alts r "p + (length s - length r)"] by auto
      with n f "1.IH"(3) [OF Some gr [symmetric] n] show ?thesis by simp
    qed
  qed
qed

lemma map_of_rev_last:
  "map_of (rev items) k =
     (case map snd (filter (\<lambda>kv. fst kv = k) items) of [] \<Rightarrow> None | v # vs \<Rightarrow> Some (last (v # vs)))"
proof (induction items)
  case Nil
  show ?case by simp
next
  case (Cons x items)
  obtain k' v' where x: "x = (k', v')" by (cases x)
  show ?case
    unfolding x using Cons.IH
    by (simp add: map_of_append map_add_def split: option.splits list.splits)
qed

lemma keys_dict_set: "set (map fst (dict_set k v d)) = insert k (set (map fst d))"
proof (induction d)
  case Nil
  show ?case by simp
next
  case (Cons kv d)
  obtain k' v' where kv: "kv = (k', v')" by (cases kv)
  show ?case
  proof (cases "k' = k")
    case True
    then show ?thesis unfolding kv by auto
  next
    case False
    with Cons.IH show ?thesis unfolding kv by auto
  qed
qed

lemma distinct_dict_set: "distinct (map fst d) \<Longrightarrow> distinct (map fst (dict_set k v d))"
proof (induction d)
  case Nil
  show ?case by simp
next
  case (Cons kv d)
  obtain k' v' where kv: "kv = (k', v')" by (cases kv)
  from Cons keys_dict_set [of k v d] show ?case
    unfolding kv by auto
qed

lemma distinct_fold_dict_set:
  "distinct (map fst d) \<Longrightarrow> distinct (map fst (fold (\<lambda>(k, v). dict_set k v) items d))"
proof (induction items arbitrary: d)
  case Nil
  then show ?case by simp
next
  case (Cons kv items)
  obtain k v where kv: "kv = (k, v)" by (cases kv)
  from Cons.IH [OF distinct_dict_set [OF Cons.prems, of k v]] show ?case
    unfolding kv by simp
qed

lemma distinct_stream_entry: "distinct (map fst (stream_entry line))"
  unfolding stream_entry_def dict_update_def by (rule distinct_fold_dict_set) simp

lemma kept_items_mem:
  "(k, v) \<in> set (kept_items m) \<longleftrightarrow> (k, Some v) \<in> set (groupdict stream_names m) \<and> v \<noteq> []"
  unfolding kept_items_def by (auto split: option.splits if_splits)

lemma map_of_stream_entry:
  "map_of (stream_entry line) k =
     (case map snd (filter (\<lambda>kv. fst kv = k) (concat (map kept_items (finditer regex_stream line 0)))) of
        [] \<Rightarrow> None
      | v # vs \<Rightarrow> Some (last (v # vs)))"
  using map_of_rev_last [of "concat (map kept_items (finditer regex_stream line 0))" k]
  by (simp only: stream_entry_def map_of_dict_update) simp

text \<open>
  C9: the matches of a paired line come in the order of their positions, none
  overlapping another; the entry has each key once, and a key that several matches
  give a non-empty value is bound to the value of the last of them.
\<close>

theorem stream_entry_last_match_wins:
  "distinct (map fst (stream_entry line)) \<and>
   sorted_wrt (\<lambda>a b. m_end a \<le> m_start b) (finditer regex_stream line 0) \<and>
   map_of (stream_entry line) k =
     (case map snd (filter (\<lambda>kv. fst kv = k) (concat (map kept_items (finditer regex_stream line 0)))) of
        [] \<Rightarrow> None
      | v # vs \<Rightarrow> Some (last (v # vs)))"
  using distinct_stream_entry [of line] finditer_sorted [of regex_stream line 0]
    map_of_stream_entry [of line k]
  by simp

lemma stream_entry_only_matched_keys:
  assumes "(k, v) \<in> set (stream_entry line)"
  shows "v \<noteq> [] \<and> k \<in> set stream_names \<and>
    (\<exists>m \<in> set (finditer regex_stream line 0). (k, Some v) \<in> set (groupdict stream_names m))"
proof -
  from assms dict_update_subset [of "[]" "concat (map kept_items (finditer regex_stream line 0))"]
  have "(k, v) \<in> set (concat (map kept_items (finditer regex_stream line 0)))"
    unfolding stream_entry_def by auto
  then obtain m where m: "m \<in> set (finditer regex_stream line 0)" and "(k, v) \<in> set (kept_items m)"
    by auto
  then have kv: "(k, Some v) \<in> set (groupdict stream_names m)" and v: "v \<noteq> []"
    by (simp_all add: kept_items_mem)
  from kv have "k \<in> set stream_names" by (auto simp: groupdict_def)
  with kv v m show ?thesis by blast
qed

section \<open>Where the matches of a line pair stand\<close>

lemma finditer_match:
  "m \<in> set (finditer alts s p) \<Longrightarrow>
     p \<le> m_start m \<and> m_start m - p \<le> length s \<and>
     (\<exists>r. match_here alts (drop (m_start m - p) s) = Some (m_groups m, r) \<and>
          m_end m = m_start m + (length s - (m_start m - p) - length r))"
proof (induction alts s p rule: finditer.induct)
  case (1 alts s p)
  show ?case
  proof (cases "match_here alts s")
    case None
    show ?thesis
    proof (cases s)
      case Nil
      with None "1.prems" show ?thesis by (simp add: finditer_None)
    next
      case (Cons x xs)
      with None "1.prems" have "m \<in> set (finditer alts xs (Suc p))" by (simp add: finditer_None)
      from "1.IH"(1) [OF None Cons this] obtain r
        where a: "Suc p \<le> m_start m" and b: "m_start m - Suc p \<le> length xs"
          and c: "match_here alts (drop (m_start m - Suc p) xs) = Some (m_groups m, r)"
          and d: "m_end m = m_start m + (length xs - (m_start m - Suc p) - length r)"
        by blast
      from a have e: "m_start m - p = Suc (m_start m - Suc p)" by simp
      from a b c d show ?thesis unfolding Cons e by auto
    qed
  next
    case (Some gr)
    obtain gs r0 where gr: "gr = (gs, r0)" by (cases gr)
    note f = finditer_Some [OF Some [unfolded gr], of p]
    let ?m0 = "\<lparr>m_start = p, m_end = p + (length s - length r0), m_groups = gs\<rparr>"
    show ?thesis
    proof (cases "m = ?m0")
      case True
      with Some gr show ?thesis by simp
    next
      case False
      show ?thesis
      proof (cases "length s - length r0 = 0")
        case True
        with False f "1.prems" obtain x xs where s: "s = x # xs" and "m \<in> set (finditer alts xs (Suc p))"
          by (cases s) auto
        from "1.IH"(2) [OF Some gr [symmetric] True s this(2)] obtain r
          where a: "Suc p \<le> m_start m" and b: "m_start m - Suc p \<le> length xs"
            and c: "match_here alts (drop (m_start m - Suc p) xs) = Some (m_groups m, r)"
            and d: "m_end m = m_start m + (length xs - (m_start m - Suc p) - length r)"
          by blast
        from a have e: "m_start m - p = Suc (m_start m - Suc p)" by simp
        from a b c d show ?thesis unfolding s e by auto
      next
        case n: False
        let ?n = "length s - length r0"
        from match_here_suffix [OF Some [unfolded gr]] have r0: "r0 = drop ?n s" .
        from n have len: "length r0 < length s" by simp
        from n False f "1.prems" have "m \<in> set (finditer alts r0 (p + ?n))"
          by auto
        from "1.IH"(3) [OF Some gr [symmetric] n this] obtain r
          where a: "p + ?n \<le> m_start m" and b: "m_start m - (p + ?n) \<le> length r0"
            and c: "match_here alts (drop (m_start m - (p + ?n)) r0) = Some (m_groups m, r)"
            and d: "m_end m = m_start m + (length r0 - (m_start m - (p + ?n)) - length r)"
          by blast
        have "drop (m_start m - (p + ?n)) r0 = drop (m_start m - (p + ?n) + ?n) s"
          by (subst r0) (simp only: drop_drop)
        also from a have "m_start m - (p + ?n) + ?n = m_start m - p" by simp
        finally have e: "drop (m_start m - (p + ?n)) r0 = drop (m_start m - p) s" .
        from a b len have "m_start m - p \<le> length s" by simp
        moreover from a b len have "length r0 - (m_start m - (p + ?n)) = length s - (m_start m - p)"
          by simp
        ultimately show ?thesis using a c d unfolding e by auto
      qed
    qed
  qed
qed

lemma occurs_Nil: "occurs [] s"
  by (cases s) simp_all

lemma occurs_drop: "take (length w) (drop n s) = w \<Longrightarrow> occurs w s"
proof (induction s arbitrary: n)
  case Nil
  then show ?case by simp
next
  case (Cons x xs)
  show ?case
  proof (cases n)
    case 0
    with Cons.prems show ?thesis by simp
  next
    case (Suc k)
    with Cons.prems have "take (length w) (drop k xs) = w" by simp
    from Cons.IH [OF this] show ?thesis by simp
  qed
qed

lemma finditer_reach:
  assumes "p \<le> q" and "q - p \<le> length s"
    and "match_here alts (drop (q - p) s) = Some (gs, r)"
    and "length (drop (q - p) s) - length r \<noteq> 0"
    and "\<forall>m \<in> set (finditer alts s p). \<not> (m_start m < q \<and> q < m_end m)"
  shows "\<exists>ms1. finditer alts s p =
      ms1 @ \<lparr>m_start = q, m_end = q + (length (drop (q - p) s) - length r), m_groups = gs\<rparr> #
        finditer alts r (q + (length (drop (q - p) s) - length r)) \<and>
      (\<forall>m \<in> set ms1. m_start m < q)"
  using assms
proof (induction alts s p rule: finditer.induct)
  case (1 alts s p)
  let ?goal = "\<lambda>s p. \<exists>ms1. finditer alts s p =
      ms1 @ \<lparr>m_start = q, m_end = q + (length (drop (q - p) s) - length r), m_groups = gs\<rparr> #
        finditer alts r (q + (length (drop (q - p) s) - length r)) \<and>
      (\<forall>m \<in> set ms1. m_start m < q)"
  show ?case
  proof (cases "q = p")
    case True
    with "1.prems"(3,4) have m: "match_here alts s = Some (gs, r)" and n: "length s - length r \<noteq> 0"
      by simp_all
    have "finditer alts s p =
        [] @ \<lparr>m_start = q, m_end = q + (length (drop (q - p) s) - length r), m_groups = gs\<rparr> #
          finditer alts r (q + (length (drop (q - p) s) - length r))"
      using finditer_Some [OF m, of p] n True by simp
    then show ?thesis by (intro exI [of _ "[]"]) simp
  next
    case False
    with "1.prems"(1) have pq: "p < q" by simp
    with "1.prems"(2) obtain x xs where s: "s = x # xs" by (cases s) auto
    from pq have "q - p = Suc (q - Suc p)" by simp
    then have dq: "drop (q - p) s = drop (q - Suc p) xs"
      unfolding s by simp
    from pq "1.prems"(2) have le: "Suc p \<le> q" "q - Suc p \<le> length xs"
      unfolding s by simp_all
    show ?thesis
    proof (cases "match_here alts s")
      case None
      then have f: "finditer alts s p = finditer alts xs (Suc p)"
        unfolding s by (simp add: finditer_None)
      from "1.IH"(1) [OF None s le "1.prems"(3,4) [unfolded dq] "1.prems"(5) [unfolded f]]
      show ?thesis unfolding f dq .
    next
      case (Some gr)
      obtain gs0 r0 where gr: "gr = (gs0, r0)" by (cases gr)
      note f = finditer_Some [OF Some [unfolded gr], of p]
      let ?m0 = "\<lparr>m_start = p, m_end = p + (length s - length r0), m_groups = gs0\<rparr>"
      show ?thesis
      proof (cases "length s - length r0 = 0")
        case True
        with f have f': "finditer alts s p = ?m0 # finditer alts xs (Suc p)"
          unfolding s by simp
        from "1.prems"(5) have h: "\<forall>m \<in> set (finditer alts xs (Suc p)). \<not> (m_start m < q \<and> q < m_end m)"
          unfolding f' by simp
        from "1.IH"(2) [OF Some gr [symmetric] True s le "1.prems"(3,4) [unfolded dq] h]
        obtain ms1 where a: "finditer alts xs (Suc p) =
            ms1 @ \<lparr>m_start = q, m_end = q + (length (drop (q - Suc p) xs) - length r), m_groups = gs\<rparr> #
              finditer alts r (q + (length (drop (q - Suc p) xs) - length r))"
          and b: "\<forall>m \<in> set ms1. m_start m < q"
          by blast
        have "finditer alts s p =
            (?m0 # ms1) @ \<lparr>m_start = q, m_end = q + (length (drop (q - p) s) - length r), m_groups = gs\<rparr> #
              finditer alts r (q + (length (drop (q - p) s) - length r))"
          unfolding f' a dq by simp
        moreover from b pq have "\<forall>m \<in> set (?m0 # ms1). m_start m < q" by simp
        ultimately show ?thesis by blast
      next
        case n: False
        let ?n = "length s - length r0"
        from f n have f': "finditer alts s p = ?m0 # finditer alts r0 (p + ?n)" by simp
        from match_here_suffix [OF Some [unfolded gr]] have r0: "r0 = drop ?n s" .
        from n have len: "length r0 < length s" by simp
        from "1.prems"(5) have "\<not> (m_start ?m0 < q \<and> q < m_end ?m0)"
          unfolding f' by simp
        with pq have le1: "p + ?n \<le> q" by simp
        from "1.prems"(2) len le1 have le2: "q - (p + ?n) \<le> length r0" by simp
        have "drop (q - (p + ?n)) r0 = drop (q - (p + ?n) + ?n) s"
          by (subst r0) (simp only: drop_drop)
        also from le1 have "q - (p + ?n) + ?n = q - p" by simp
        finally have dq': "drop (q - p) s = drop (q - (p + ?n)) r0" by simp
        from "1.prems"(5) have h: "\<forall>m \<in> set (finditer alts r0 (p + ?n)). \<not> (m_start m < q \<and> q < m_end m)"
          unfolding f' by simp
        from "1.IH"(3) [OF Some gr [symmetric] n le1 le2 "1.prems"(3,4) [unfolded dq'] h]
        obtain ms1 where a: "finditer alts r0 (p + ?n) =
            ms1 @ \<lparr>m_start = q, m_end = q + (length (drop (q - (p + ?n)) r0) - length r), m_groups = gs\<rparr> #
              finditer alts r (q + (length (drop (q - (p + ?n)) r0) - length r))"
          and b: "\<forall>m \<in> set ms1. m_start m < q"
          by blast
        have "finditer alts s p =
            (?m0 # ms1) @ \<lparr>m_start = q, m_end = q + (length (drop (q - p) s) - length r), m_groups = gs\<rparr> #
              finditer alts r (q + (length (drop (q - p) s) - length r))"
          unfolding f' a dq' by simp
        moreover from b pq have "\<forall>m \<in> set (?m0 # ms1). m_start m < q" by simp
        ultimately show ?thesis by blast
      qed
    qed
  qed
qed

lemma runs_shorter_Lit:
  assumes "st' \<in> set (runs (Lit c # ts) st)"
  shows "length (rest st') < length (rest st)"
proof -
  from assms have "\<exists>xs. rest st = c # xs \<and> st' \<in> set (runs ts (st\<lparr>rest := xs\<rparr>))"
    by (simp only: runs_Lit_mem)
  then obtain xs where r: "rest st = c # xs" and m: "st' \<in> set (runs ts (st\<lparr>rest := xs\<rparr>))"
    by blast
  from runs_rest [OF m] obtain n where "rest st' = drop n xs" by auto
  with r show ?thesis by simp
qed

lemma stream_alt_starts:
  "a \<in> set regex_stream \<Longrightarrow> (\<exists>c ts. a = Lit c # ts) \<or> (\<exists>g c ts. a = Open g # Lit c # ts)"
  by (auto simp: regex_stream_def alt_ext_inf_def alt_attr_def alt_chan_name_def
      alt_stream_url_def lits_def)

text \<open>No match of the stream pattern is empty: the scan of \<open>finditer\<close> always moves on by the length of the match.\<close>

lemma stream_match_nonempty:
  assumes "match_here regex_stream s = Some (gs, r)"
  shows "length r < length s"
proof -
  from match_here_mem [OF assms] obtain a st'
    where a: "a \<in> set regex_stream"
      and m: "st' \<in> set (runs a \<lparr>rest = s, opened = [], groups = []\<rparr>)" and r: "r = rest st'"
    by blast
  from stream_alt_starts [OF a] show ?thesis
  proof
    assume "\<exists>c ts. a = Lit c # ts"
    then obtain c ts where "a = Lit c # ts" by blast
    with m runs_shorter_Lit [of st' c ts "\<lparr>rest = s, opened = [], groups = []\<rparr>"] r
    show ?thesis by simp
  next
    assume "\<exists>g c ts. a = Open g # Lit c # ts"
    then obtain g c ts where "a = Open g # Lit c # ts" by blast
    with m runs_shorter_Lit [of st' c ts "\<lparr>rest = s, opened = [(g, s)], groups = []\<rparr>"] r
    show ?thesis by simp
  qed
qed

section \<open>The duration\<close>

lemma runs_Close_single:
  "map_of (opened st) g = Some s0 \<Longrightarrow>
     runs [Close g] st =
       [st\<lparr>groups := dict_set g (take (length s0 - length (rest st)) s0) (groups st)\<rparr>]"
  by simp

lemma runs_Plus_Close:
  assumes "map_of (opened st) g = Some s0"
  shows "runs [Plus P, Close g] st =
     map (\<lambda>k. st\<lparr>rest := drop k (rest st),
                  groups := dict_set g (take (length s0 - length (drop k (rest st))) s0) (groups st)\<rparr>)
       (rev [1 ..< Suc (length (takeWhile P (rest st)))])"
proof -
  have "\<And>k. runs [Close g] (st\<lparr>rest := drop k (rest st)\<rparr>) =
      [st\<lparr>rest := drop k (rest st),
          groups := dict_set g (take (length s0 - length (drop k (rest st))) s0) (groups st)\<rparr>]"
    using assms by simp
  then show ?thesis
    by (simp del: upt_Suc add: concat_map_singleton)
qed

lemma runs_Star_Close:
  assumes "map_of (opened st) g = Some s0"
  shows "runs [Star P, Close g] st =
     map (\<lambda>k. st\<lparr>rest := drop k (rest st),
                  groups := dict_set g (take (length s0 - length (drop k (rest st))) s0) (groups st)\<rparr>)
       (rev [0 ..< Suc (length (takeWhile P (rest st)))])"
proof -
  have "\<And>k. runs [Close g] (st\<lparr>rest := drop k (rest st)\<rparr>) =
      [st\<lparr>rest := drop k (rest st),
          groups := dict_set g (take (length s0 - length (drop k (rest st))) s0) (groups st)\<rparr>]"
    using assms by simp
  then show ?thesis
    by (simp del: upt_Suc add: concat_map_singleton)
qed

lemma takeWhile_run:
  assumes "list_all P ds" and "r = [] \<or> \<not> P (hd r)"
  shows "takeWhile P (ds @ r) = ds"
proof -
  from assms(2) have "takeWhile P r = []" by (cases r) auto
  with assms(1) show ?thesis by (simp add: list_all_iff takeWhile_append2)
qed

lemma runs_alt_ext_inf:
  assumes "ds \<noteq> []" and "list_all digit ds" and "r = [] \<or> \<not> digit (hd r)"
  shows "\<exists>sts. runs alt_ext_inf \<lparr>rest = ''#EXTINF:'' @ ds @ r, opened = [], groups = []\<rparr> =
     \<lparr>rest = r, opened = [(''ext_inf'', ds @ r)], groups = [(''ext_inf'', ds)]\<rparr> # sts"
proof -
  from assms(1) have n: "1 \<le> length ds" by (cases ds) simp_all
  have "runs alt_ext_inf \<lparr>rest = ''#EXTINF:'' @ ds @ r, opened = [], groups = []\<rparr> =
      runs [Plus digit, Close ''ext_inf''] \<lparr>rest = ds @ r, opened = [(''ext_inf'', ds @ r)], groups = []\<rparr>"
    unfolding alt_ext_inf_def by (simp add: runs_lits)
  also have "\<dots> = map (\<lambda>k. \<lparr>rest = drop k (ds @ r), opened = [(''ext_inf'', ds @ r)],
        groups = [(''ext_inf'', take (length (ds @ r) - length (drop k (ds @ r))) (ds @ r))]\<rparr>)
      (rev [1 ..< Suc (length ds)])"
    by (subst runs_Plus_Close [where ?s0.0 = "ds @ r"])
      (simp_all add: takeWhile_run [OF assms(2,3)] del: upt_Suc)
  also have "rev [1 ..< Suc (length ds)] = length ds # rev [1 ..< length ds]"
    using n by simp
  finally show ?thesis by simp
qed

lemma match_here_ext_inf:
  assumes "ds \<noteq> []" and "list_all digit ds" and "r = [] \<or> \<not> digit (hd r)"
  shows "match_here regex_stream (''#EXTINF:'' @ ds @ r) = Some ([(''ext_inf'', ds)], r)"
proof -
  from runs_alt_ext_inf [OF assms] obtain sts
    where "runs alt_ext_inf \<lparr>rest = ''#EXTINF:'' @ ds @ r, opened = [], groups = []\<rparr> =
     \<lparr>rest = r, opened = [(''ext_inf'', ds @ r)], groups = [(''ext_inf'', ds)]\<rparr> # sts"
    by blast
  then show ?thesis
    unfolding regex_stream_def by (simp del: append.simps)
qed

lemma match_here_group_alt:
  assumes "match_here alts s = Some (gs, r)" and "map_of gs g = Some x"
  shows "\<exists>a \<in> set alts. Close g \<in> set a \<and>
     (\<exists>st' sts. runs a \<lparr>rest = s, opened = [], groups = []\<rparr> = st' # sts \<and>
        gs = groups st' \<and> r = rest st')"
proof -
  from match_here_hd [OF assms(1)] obtain a st' sts
    where a: "a \<in> set alts" and r: "runs a \<lparr>rest = s, opened = [], groups = []\<rparr> = st' # sts"
      and g: "gs = groups st'" and r': "r = rest st'"
    by blast
  from r have m: "st' \<in> set (runs a \<lparr>rest = s, opened = [], groups = []\<rparr>)" by simp
  have "Close g \<in> set a"
  proof (rule ccontr)
    assume "Close g \<notin> set a"
    from runs_groups_other [OF m this] assms(2) g show False by simp
  qed
  with a r g r' show ?thesis by blast
qed

lemma stream_alt_ext_inf_only:
  "a \<in> set regex_stream \<Longrightarrow> Close ''ext_inf'' \<in> set a \<Longrightarrow> a = alt_ext_inf"
  by (auto simp: regex_stream_def alt_attr_def alt_chan_name_def alt_stream_url_def lits_def)

lemma stream_alt_chan_name_only:
  "a \<in> set regex_stream \<Longrightarrow> Close ''chan_name'' \<in> set a \<Longrightarrow> a = alt_chan_name"
  by (auto simp: regex_stream_def alt_attr_def alt_ext_inf_def alt_stream_url_def lits_def)

lemma ext_inf_match_prefix:
  assumes "match_here regex_stream v = Some (gs, r)" and "map_of gs ''ext_inf'' = Some x"
  shows "take (length ''#EXTINF:'') v = ''#EXTINF:''"
proof -
  from match_here_group_alt [OF assms] stream_alt_ext_inf_only
  have "runs alt_ext_inf \<lparr>rest = v, opened = [], groups = []\<rparr> \<noteq> []" by fastforce
  then show ?thesis
    unfolding alt_ext_inf_def runs_lits by (simp split: if_splits)
qed

lemma kept_items_group:
  "(k, v) \<in> set (kept_items m) \<Longrightarrow> map_of (m_groups m) k = Some v \<and> v \<noteq> []"
  by (auto simp: kept_items_mem groupdict_def)

lemma no_ext_inf_items:
  assumes "\<not> occurs ''#EXTINF:'' s"
  shows "filter (\<lambda>kv. fst kv = ''ext_inf'') (concat (map kept_items (finditer regex_stream s p))) = []"
proof -
  have "\<And>k v m. m \<in> set (finditer regex_stream s p) \<Longrightarrow> (k, v) \<in> set (kept_items m) \<Longrightarrow>
      k \<noteq> ''ext_inf''"
  proof
    fix k v m
    assume m: "m \<in> set (finditer regex_stream s p)" and kv: "(k, v) \<in> set (kept_items m)"
      and k: "k = ''ext_inf''"
    from finditer_match [OF m] obtain r
      where "match_here regex_stream (drop (m_start m - p) s) = Some (m_groups m, r)"
      by blast
    moreover from kept_items_group [OF kv] k have "map_of (m_groups m) ''ext_inf'' = Some v"
      by simp
    ultimately have "take (length ''#EXTINF:'') (drop (m_start m - p) s) = ''#EXTINF:''"
      by (rule ext_inf_match_prefix)
    from occurs_drop [OF this] assms show False by simp
  qed
  then show ?thesis
    by (auto simp: filter_empty_conv)
qed

text \<open>
  C5, as the code has it: when the metadata line begins with \<^verbatim>\<open>#EXTINF:\<close> and a
  non-empty run \<open>ds\<close> of decimal digits (the whole run: no digit follows), and
  \<^verbatim>\<open>#EXTINF:\<close> stands nowhere later in the line pair, the entry binds \<^verbatim>\<open>ext_inf\<close> to
  the text \<open>ds\<close>, a string.
\<close>

theorem ext_inf_digits_as_text:
  assumes "ds \<noteq> []" and "list_all digit ds" and "r = [] \<or> \<not> digit (hd r)"
    and "\<not> occurs ''#EXTINF:'' (r @ [LF] @ url)"
  shows "map_of (stream_entry ((''#EXTINF:'' @ ds @ r) @ [LF] @ url)) ''ext_inf'' = Some ds"
proof -
  let ?R = "r @ [LF] @ url"
  have "\<not> digit LF" by (simp add: digit_def LF_def)
  with assms(3) have R: "?R = [] \<or> \<not> digit (hd ?R)" by (cases r) simp_all
  have t: "(''#EXTINF:'' @ ds @ r) @ [LF] @ url = ''#EXTINF:'' @ ds @ ?R" by simp
  note m = match_here_ext_inf [OF assms(1,2) R]
  have len: "length (''#EXTINF:'' @ ds @ ?R) - length ?R \<noteq> 0" by simp
  have k: "kept_items \<lparr>m_start = 0, m_end = 0 + (length (''#EXTINF:'' @ ds @ ?R) - length ?R),
      m_groups = [(''ext_inf'', ds)]\<rparr> = [(''ext_inf'', ds)]"
    using assms(1) by (simp add: kept_items_def groupdict_def stream_names_def)
  have "map snd (filter (\<lambda>kv. fst kv = ''ext_inf'')
      (concat (map kept_items (finditer regex_stream (''#EXTINF:'' @ ds @ ?R) 0)))) = [ds]"
    unfolding finditer_Some [OF m, of 0] using len
    by (simp only: if_False list.map concat.simps filter_append k no_ext_inf_items [OF assms(4)])
      simp
  then show ?thesis
    unfolding t map_of_stream_entry by simp
qed

theorem ext_inf_digits_as_text_witness:
  "map_of (stream_entry ((''#EXTINF:'' @ ''120'' @ '' tvg-id=x,N'') @ [LF] @ ''http://1.2.3.4:80/stream/x''))
     ''ext_inf'' = Some ''120''"
proof -
  have a: "''120'' \<noteq> []" and b: "list_all digit ''120''"
    and c: "'' tvg-id=x,N'' = [] \<or> \<not> digit (hd '' tvg-id=x,N'')"
    and d: "\<not> occurs ''#EXTINF:'' ('' tvg-id=x,N'' @ [LF] @ ''http://1.2.3.4:80/stream/x'')"
    by code_simp+
  from ext_inf_digits_as_text [OF a b c d] show ?thesis .
qed

text \<open>
  C5 as stated fails: \<^verbatim>\<open>\d+\<close> takes no sign, so for \<^verbatim>\<open>#EXTINF:-1\<close> the entry has no
  \<^verbatim>\<open>ext_inf\<close> key at all.
\<close>

theorem ext_inf_negative_not_matched:
  \<open>m3u_to_json ''#EXTM3U url-tvg="a" x-tvg-url="b"\<newline>#EXTINF:-1,News\<newline>http://1.2.3.4:80/stream/x'' =
     Inr ''{"url_tvg": "a", "x_tvg_url": "b", "streams": [{"chan_name": "News", "stream_url": "http://1.2.3.4:80/stream/x"}]}''\<close>
  by code_simp

section \<open>The channel name\<close>

lemma runs_alt_chan_name:
  "runs alt_chan_name \<lparr>rest = CHR '','' # v, opened = [], groups = []\<rparr> =
     map (\<lambda>k. \<lparr>rest = drop k v, opened = [(''chan_name'', v)],
                groups = [(''chan_name'', take (length v - length (drop k v)) v)]\<rparr>)
       (rev [0 ..< Suc (length (takeWhile dot v))])"
  unfolding alt_chan_name_def
  by (simp del: upt_Suc runs.simps(4)
      add: runs_Star_Close [where ?s0.0 = v and g = "''chan_name''"])

lemma runs_alt_chan_name_hd:
  "\<exists>sts. runs alt_chan_name \<lparr>rest = CHR '','' # v, opened = [], groups = []\<rparr> =
     \<lparr>rest = dropWhile dot v, opened = [(''chan_name'', v)],
      groups = [(''chan_name'', takeWhile dot v)]\<rparr> # sts"
proof -
  let ?n = "length (takeWhile dot v)"
  have n: "?n \<le> length v" by (rule length_takeWhile_le)
  have r: "rev [0 ..< Suc ?n] = ?n # rev [0 ..< ?n]" by simp
  from n have "length v - length (drop ?n v) = ?n" by simp
  then have "take (length v - length (drop ?n v)) v = take ?n v" by (simp only:)
  also have "\<dots> = takeWhile dot v" by (rule takeWhile_eq_take [symmetric])
  finally have t: "take (length v - length (drop ?n v)) v = takeWhile dot v" .
  have d: "drop ?n v = dropWhile dot v"
    by (rule dropWhile_eq_drop [symmetric])
  from t have t': "take (length v - length (dropWhile dot v)) v = takeWhile dot v"
    unfolding d .
  show ?thesis
    unfolding runs_alt_chan_name r list.map d t' by blast
qed

lemma runs_alt_chan_name_other:
  "x \<noteq> CHR '','' \<Longrightarrow> runs alt_chan_name \<lparr>rest = x # v, opened = [], groups = []\<rparr> = []"
  "runs alt_chan_name \<lparr>rest = [], opened = [], groups = []\<rparr> = []"
  unfolding alt_chan_name_def by simp_all

lemma match_here_comma:
  "match_here regex_stream (CHR '','' # v) = Some ([(''chan_name'', takeWhile dot v)], dropWhile dot v)"
proof -
  from runs_alt_chan_name_hd [of v] obtain sts
    where r: "runs alt_chan_name \<lparr>rest = CHR '','' # v, opened = [], groups = []\<rparr> =
     \<lparr>rest = dropWhile dot v, opened = [(''chan_name'', v)],
      groups = [(''chan_name'', takeWhile dot v)]\<rparr> # sts"
    by blast
  have e: "runs alt_ext_inf \<lparr>rest = CHR '','' # v, opened = [], groups = []\<rparr> = []"
    by (simp add: alt_ext_inf_def lits_def)
  have a: "\<And>g. runs (alt_attr ''channelID'' g) \<lparr>rest = CHR '','' # v, opened = [], groups = []\<rparr> = []"
    "\<And>g. runs (alt_attr ''tvg-chno'' g) \<lparr>rest = CHR '','' # v, opened = [], groups = []\<rparr> = []"
    "\<And>g. runs (alt_attr ''tvg-name'' g) \<lparr>rest = CHR '','' # v, opened = [], groups = []\<rparr> = []"
    "\<And>g. runs (alt_attr ''tvg-id'' g) \<lparr>rest = CHR '','' # v, opened = [], groups = []\<rparr> = []"
    "\<And>g. runs (alt_attr ''tvg-logo'' g) \<lparr>rest = CHR '','' # v, opened = [], groups = []\<rparr> = []"
    "\<And>g. runs (alt_attr ''group-title'' g) \<lparr>rest = CHR '','' # v, opened = [], groups = []\<rparr> = []"
    by (simp_all add: alt_attr_def lits_def)
  show ?thesis
    unfolding regex_stream_def by (simp add: e a r)
qed

lemma chan_name_match_form:
  assumes "match_here regex_stream s = Some (gs, r)" and "map_of gs ''chan_name'' = Some x"
  shows "\<exists>v. s = CHR '','' # v \<and> x = takeWhile dot v \<and> r = dropWhile dot v"
proof -
  from match_here_group_alt [OF assms] stream_alt_chan_name_only
  have ne: "runs alt_chan_name \<lparr>rest = s, opened = [], groups = []\<rparr> \<noteq> []" by fastforce
  then obtain c v where s: "s = c # v"
    by (cases s) (simp_all add: runs_alt_chan_name_other)
  with ne have c: "c = CHR '',''"
    by (cases "c = CHR '',''") (simp_all add: runs_alt_chan_name_other)
  from assms match_here_comma [of v] show ?thesis
    unfolding s c by auto
qed

lemma dropWhile_run:
  assumes "list_all P ds" and "r = [] \<or> \<not> P (hd r)"
  shows "dropWhile P (ds @ r) = r"
proof -
  have "takeWhile P (ds @ r) @ dropWhile P (ds @ r) = ds @ r" by simp
  then show ?thesis unfolding takeWhile_run [OF assms] by simp
qed

lemma no_chan_name_items:
  assumes "CHR '','' \<notin> set s"
  shows "filter (\<lambda>kv. fst kv = ''chan_name'') (concat (map kept_items (finditer regex_stream s p))) = []"
proof -
  have "\<And>k v m. m \<in> set (finditer regex_stream s p) \<Longrightarrow> (k, v) \<in> set (kept_items m) \<Longrightarrow>
      k \<noteq> ''chan_name''"
  proof
    fix k v m
    assume m: "m \<in> set (finditer regex_stream s p)" and kv: "(k, v) \<in> set (kept_items m)"
      and k: "k = ''chan_name''"
    from finditer_match [OF m] obtain r
      where "match_here regex_stream (drop (m_start m - p) s) = Some (m_groups m, r)"
      by blast
    moreover from kept_items_group [OF kv] k have "map_of (m_groups m) ''chan_name'' = Some v"
      by simp
    ultimately obtain w where "drop (m_start m - p) s = CHR '','' # w"
      using chan_name_match_form by blast
    then have "CHR '','' \<in> set (drop (m_start m - p) s)" by simp
    with assms show False by (auto dest: in_set_dropD)
  qed
  then show ?thesis
    by (auto simp: filter_empty_conv)
qed

lemma chan_name_match_before:
  assumes m: "m \<in> set (finditer regex_stream (pre @ CHR '','' # name @ LF # url) 0)"
    and j: "m_start m < length pre"
    and g: "map_of (m_groups m) ''chan_name'' = Some v"
    and pre: "LF \<notin> set pre" and name: "LF \<notin> set name"
  shows "length pre < m_end m"
proof -
  let ?t = "pre @ CHR '','' # name @ LF # url"
  let ?j = "m_start m"
  from finditer_match [OF m] obtain r
    where mh: "match_here regex_stream (drop ?j ?t) = Some (m_groups m, r)"
      and e: "m_end m = ?j + (length ?t - ?j - length r)"
    by auto
  from chan_name_match_form [OF mh g] obtain w
    where d: "drop ?j ?t = CHR '','' # w" and r: "r = dropWhile dot w"
    by blast
  from j have dj: "drop ?j ?t = drop ?j pre @ CHR '','' # name @ LF # url" by simp
  from j have "drop ?j pre \<noteq> []" by simp
  then obtain c p' where p': "drop ?j pre = c # p'" by (cases "drop ?j pre") auto
  from d dj p' have w: "w = (p' @ CHR '','' # name) @ (LF # url)" by simp
  have "set p' \<subseteq> set pre"
    using p' set_drop_subset [of ?j pre] by (metis set_subset_Cons subset_trans)
  with pre name have "list_all dot (p' @ CHR '','' # name)"
    by (auto simp: list_all_iff dot_def LF_def)
  moreover have "LF # url = [] \<or> \<not> dot (hd (LF # url))" by (simp add: dot_def)
  ultimately have "dropWhile dot w = LF # url"
    unfolding w by (rule dropWhile_run)
  with r have lr: "length r = Suc (length url)" by simp
  from j show ?thesis unfolding e lr by simp
qed

text \<open>
  C7, as the code has it: take a comma of the metadata line that no match starting
  before it runs across (a quoted attribute value or a stream URL may hold commas of
  their own), and let the URL line hold no comma.  Then \<^verbatim>\<open>chan_name\<close> is the whole text
  from that comma to the end of the metadata line, commas included, and the key is
  absent when that text is empty.
\<close>

theorem chan_name_from_first_free_comma:
  assumes pre: "LF \<notin> set pre" and name: "LF \<notin> set name" and url: "CHR '','' \<notin> set url"
    and free: "\<forall>m \<in> set (finditer regex_stream ((pre @ '','' @ name) @ [LF] @ url) 0).
        \<not> (m_start m < length pre \<and> length pre < m_end m)"
  shows "map_of (stream_entry ((pre @ '','' @ name) @ [LF] @ url)) ''chan_name'' =
    (if name = [] then None else Some name)"
proof -
  let ?t = "pre @ CHR '','' # name @ LF # url"
  let ?q = "length pre"
  let ?V = "name @ LF # url"
  have t: "(pre @ '','' @ name) @ [LF] @ url = ?t" by simp
  note free' = free [unfolded t]
  from name have an: "list_all dot name" by (auto simp: list_all_iff dot_def)
  have al: "LF # url = [] \<or> \<not> dot (hd (LF # url))" by (simp add: dot_def)
  have mh: "match_here regex_stream (drop (?q - 0) ?t) = Some ([(''chan_name'', name)], LF # url)"
    using match_here_comma [of ?V]
    by (simp add: takeWhile_run [OF an al] dropWhile_run [OF an al])
  have ne: "length (drop (?q - 0) ?t) - length (LF # url) \<noteq> 0" by simp
  have le: "?q - 0 \<le> length ?t" by simp
  from finditer_reach [OF le0 le mh ne free'] obtain ms1
    where f: "finditer regex_stream ?t 0 =
        ms1 @ \<lparr>m_start = ?q, m_end = ?q + (length (drop (?q - 0) ?t) - length (LF # url)),
                m_groups = [(''chan_name'', name)]\<rparr> #
          finditer regex_stream (LF # url) (?q + (length (drop (?q - 0) ?t) - length (LF # url)))"
      and b: "\<forall>m \<in> set ms1. m_start m < ?q"
    by blast
  let ?m = "\<lparr>m_start = ?q, m_end = ?q + (length (drop (?q - 0) ?t) - length (LF # url)),
                m_groups = [(''chan_name'', name)]\<rparr>"
  let ?p2 = "?q + (length (drop (?q - 0) ?t) - length (LF # url))"
  have before: "filter (\<lambda>kv. fst kv = ''chan_name'') (concat (map kept_items ms1)) = []"
  proof -
    have "\<And>k v m. m \<in> set ms1 \<Longrightarrow> (k, v) \<in> set (kept_items m) \<Longrightarrow> k \<noteq> ''chan_name''"
    proof
      fix k v m
      assume m1: "m \<in> set ms1" and kv: "(k, v) \<in> set (kept_items m)" and k: "k = ''chan_name''"
      from m1 have m: "m \<in> set (finditer regex_stream ?t 0)" unfolding f by simp
      from m1 b have j: "m_start m < ?q" by blast
      from kept_items_group [OF kv] k have g: "map_of (m_groups m) ''chan_name'' = Some v" by simp
      from chan_name_match_before [OF m j g pre name] have "?q < m_end m" .
      with j free' m show False by blast
    qed
    then show ?thesis by (auto simp: filter_empty_conv)
  qed
  have "CHR '','' \<notin> set (LF # url)" using url by (simp add: LF_def)
  then have after: "filter (\<lambda>kv. fst kv = ''chan_name'')
      (concat (map kept_items (finditer regex_stream (LF # url) ?p2))) = []"
    by (rule no_chan_name_items)
  have here: "map snd (filter (\<lambda>kv. fst kv = ''chan_name'') (kept_items ?m)) =
      (if name = [] then [] else [name])"
    by (simp add: kept_items_def groupdict_def stream_names_def)
  have "map snd (filter (\<lambda>kv. fst kv = ''chan_name'')
      (concat (map kept_items (finditer regex_stream ?t 0)))) = (if name = [] then [] else [name])"
    unfolding f
    by (simp only: map_append list.map concat_append concat.simps filter_append before after here
        append_Nil append_Nil2)
  then show ?thesis
    unfolding t map_of_stream_entry by simp
qed

theorem chan_name_from_first_free_comma_witness:
  \<open>map_of (stream_entry ((''#EXTINF:0 tvg-name="A, B"'' @ '','' @ ''News, HD'') @ [LF] @
      ''http://1.2.3.4:80/stream/x'')) ''chan_name'' = Some ''News, HD''\<close>
proof -
  have a: \<open>LF \<notin> set ''#EXTINF:0 tvg-name="A, B"''\<close> and b: \<open>LF \<notin> set ''News, HD''\<close>
    and c: \<open>CHR '','' \<notin> set ''http://1.2.3.4:80/stream/x''\<close>
    and d: \<open>\<forall>m \<in> set (finditer regex_stream ((''#EXTINF:0 tvg-name="A, B"'' @ '','' @ ''News, HD'') @ [LF] @
        ''http://1.2.3.4:80/stream/x'') 0).
        \<not> (m_start m < length ''#EXTINF:0 tvg-name="A, B"'' \<and>
           length ''#EXTINF:0 tvg-name="A, B"'' < m_end m)\<close>
    by code_simp+
  from chan_name_from_first_free_comma [OF a b c d] show ?thesis by simp
qed

text \<open>
  C7 as stated fails: for \<^verbatim>\<open>#EXTINF:0,News, HD\<close> the text after the last comma is
  \<^verbatim>\<open> HD\<close>, and the entry has \<^verbatim>\<open>News, HD\<close>.
\<close>

theorem chan_name_not_after_last_comma:
  \<open>m3u_to_json ''#EXTM3U url-tvg="a" x-tvg-url="b"\<newline>#EXTINF:0,News, HD\<newline>http://1.2.3.4:80/stream/x'' =
     Inr ''{"url_tvg": "a", "x_tvg_url": "b", "streams": [{"ext_inf": "0", "chan_name": "News, HD", "stream_url": "http://1.2.3.4:80/stream/x"}]}''\<close>
  by code_simp

section \<open>The document\<close>

lemma m3u_data_Inr:
  assumes "m3u_data src = Inr data"
  shows "\<exists>line body a b. splitlines src = line # body \<and> header_shape line \<and>
     data = JObject [(''url_tvg'', JString a), (''x_tvg_url'', JString b),
                     (''streams'', JArray (parse_streams body))]"
proof -
  from assms m3u_data_Inr_iff [of src] have "first_line_matches src" by blast
  then obtain line body where s: "splitlines src = line # body" and h: "header_shape line"
    by (auto simp: first_line_matches_def split: list.splits)
  from m3u_data_ok [OF s h] assms s h show ?thesis by auto
qed

text \<open>
  C2: when the parse succeeds, every entry of \<^verbatim>\<open>streams\<close> is the dict built from one
  paired line, and each of its items \<open>(k, v)\<close> has a non-empty string \<open>v\<close> that some
  match of the stream pattern in that paired line gave to the group \<open>k\<close>.  No value
  is the empty string and none is \<^verbatim>\<open>None\<close>.
\<close>

theorem streams_entries_only_matched_nonempty:
  assumes "m3u_data src = Inr data"
  shows "\<exists>a b lines.
     data = JObject [(''url_tvg'', a), (''x_tvg_url'', b),
       (''streams'', JArray (map (\<lambda>line. JObject (map (\<lambda>(k, v). (k, JString v)) (stream_entry line))) lines))] \<and>
     lines = pair_lines (tl (splitlines src)) \<and>
     (\<forall>line \<in> set lines. \<forall>(k, v) \<in> set (stream_entry line).
        v \<noteq> [] \<and> k \<in> set stream_names \<and>
        (\<exists>m \<in> set (finditer regex_stream line 0). (k, Some v) \<in> set (groupdict stream_names m)))"
proof -
  from m3u_data_Inr [OF assms] obtain line body a b
    where s: "splitlines src = line # body"
      and d: "data = JObject [(''url_tvg'', JString a), (''x_tvg_url'', JString b),
                     (''streams'', JArray (parse_streams body))]"
    by blast
  have e: "\<forall>line \<in> set (pair_lines body). \<forall>(k, v) \<in> set (stream_entry line).
        v \<noteq> [] \<and> k \<in> set stream_names \<and>
        (\<exists>m \<in> set (finditer regex_stream line 0). (k, Some v) \<in> set (groupdict stream_names m))"
    using stream_entry_only_matched_keys by blast
  from s d have "data = JObject [(''url_tvg'', JString a), (''x_tvg_url'', JString b),
       (''streams'', JArray (map (\<lambda>line. JObject (map (\<lambda>(k, v). (k, JString v)) (stream_entry line)))
          (pair_lines (tl (splitlines src)))))]"
    by (simp add: parse_streams_def entry_json_def)
  with e s show ?thesis by auto
qed

theorem streams_entries_only_matched_nonempty_witness:
  \<open>m3u_data ''#EXTM3U url-tvg="a" x-tvg-url="b"\<newline>#EXTINF:0 tvg-id="5",\<newline>u'' =
     Inr (JObject [(''url_tvg'', JString ''a''), (''x_tvg_url'', JString ''b''),
       (''streams'', JArray [JObject [(''ext_inf'', JString ''0''), (''tvg_id'', JString ''5'')]])]) \<and>
   (\<exists>lines. JArray [JObject [(''ext_inf'', JString ''0''), (''tvg_id'', JString ''5'')]] =
      JArray (map (\<lambda>line. JObject (map (\<lambda>(k, v). (k, JString v)) (stream_entry line))) lines))\<close>
proof -
  have d: \<open>m3u_data ''#EXTM3U url-tvg="a" x-tvg-url="b"\<newline>#EXTINF:0 tvg-id="5",\<newline>u'' =
     Inr (JObject [(''url_tvg'', JString ''a''), (''x_tvg_url'', JString ''b''),
       (''streams'', JArray [JObject [(''ext_inf'', JString ''0''), (''tvg_id'', JString ''5'')]])])\<close>
    by code_simp
  from streams_entries_only_matched_nonempty [OF d] d show ?thesis by auto
qed

text \<open>
  C3: with \<open>K\<close> body lines the list \<^verbatim>\<open>streams\<close> has \<open>K div 2\<close> entries, the \<open>i\<close>-th built
  from the body lines \<open>2 i\<close> and \<open>2 i + 1\<close> joined by a line feed; when \<open>K\<close> is odd the
  last body line changes nothing, and the parse still returns.
\<close>

theorem streams_one_entry_per_pair:
  assumes "splitlines src = line # body" and "header_shape line"
  shows "(\<exists>a b. m3u_data src =
       Inr (JObject [(''url_tvg'', a), (''x_tvg_url'', b), (''streams'', JArray (parse_streams body))])) \<and>
     length (parse_streams body) = length body div 2 \<and>
     (\<forall>i < length body div 2.
        parse_streams body ! i =
          entry_json (stream_entry (body ! (2 * i) @ [LF] @ body ! (2 * i + 1)))) \<and>
     (odd (length body) \<longrightarrow> parse_streams (butlast body) = parse_streams body)"
proof -
  from m3u_data_ok [OF assms]
  have "\<exists>a b. m3u_data src =
       Inr (JObject [(''url_tvg'', a), (''x_tvg_url'', b), (''streams'', JArray (parse_streams body))])"
    by blast
  moreover have "length (parse_streams body) = length body div 2"
    by (simp add: parse_streams_def length_pair_lines)
  moreover have "\<forall>i < length body div 2.
        parse_streams body ! i =
          entry_json (stream_entry (body ! (2 * i) @ [LF] @ body ! (2 * i + 1)))"
    by (simp add: parse_streams_def length_pair_lines nth_pair_lines)
  moreover have "odd (length body) \<longrightarrow> parse_streams (butlast body) = parse_streams body"
    by (simp add: parse_streams_def pair_lines_butlast)
  ultimately show ?thesis by blast
qed

theorem streams_one_entry_per_pair_witness:
  \<open>splitlines ''#EXTM3U url-tvg="a" x-tvg-url="b"\<newline>x\<newline>y\<newline>z'' =
     [''#EXTM3U url-tvg="a" x-tvg-url="b"'', ''x'', ''y'', ''z''] \<and>
   header_shape ''#EXTM3U url-tvg="a" x-tvg-url="b"'' \<and>
   odd (length [''x'', ''y'', ''z'']) \<and>
   length (parse_streams [''x'', ''y'', ''z'']) = 1 \<and>
   parse_streams (butlast [''x'', ''y'', ''z'']) = parse_streams [''x'', ''y'', ''z'']\<close>
proof -
  have s: \<open>splitlines ''#EXTM3U url-tvg="a" x-tvg-url="b"\<newline>x\<newline>y\<newline>z'' =
     [''#EXTM3U url-tvg="a" x-tvg-url="b"'', ''x'', ''y'', ''z'']\<close>
    by code_simp
  have \<open>''#EXTM3U url-tvg="a" x-tvg-url="b"'' =
      [] @ ''#EXTM3U url-tvg="'' @ ''a'' @ ''" x-tvg-url="'' @ ''b'' @ ''"'' @ [] \<and>
      LF \<notin> set ''a'' \<and> LF \<notin> set ''b''\<close>
    by (simp add: LF_def)
  then have h: \<open>header_shape ''#EXTM3U url-tvg="a" x-tvg-url="b"''\<close>
    unfolding header_shape_def by blast
  from streams_one_entry_per_pair [OF s h] s h show ?thesis by simp
qed

text \<open>
  C8: a successful parse returns the JSON text of an object with the three keys
  \<^verbatim>\<open>url_tvg\<close>, \<^verbatim>\<open>x_tvg_url\<close> and \<^verbatim>\<open>streams\<close>, in this order and no other, the first
  two bound to strings and the third to a list of objects whose values are strings.
\<close>

theorem m3u_to_json_three_keys:
  assumes "m3u_to_json src = Inr out"
  shows \<open>\<exists>a b es.
     out = dumps (JObject [(''url_tvg'', JString a), (''x_tvg_url'', JString b),
              (''streams'', JArray (map (\<lambda>e. JObject (map (\<lambda>(k, v). (k, JString v)) e)) es))]) \<and>
     out = ''{"url_tvg": '' @ dumps (JString a) @ '', "x_tvg_url": '' @ dumps (JString b) @
           '', "streams": '' @
           dumps (JArray (map (\<lambda>e. JObject (map (\<lambda>(k, v). (k, JString v)) e)) es)) @ ''}''\<close>
proof -
  from assms obtain data where d: "m3u_data src = Inr data" and o: "out = dumps data"
    by (auto simp: m3u_to_json_def split: sum.splits)
  from m3u_data_Inr [OF d] obtain body a b
    where "data = JObject [(''url_tvg'', JString a), (''x_tvg_url'', JString b),
                     (''streams'', JArray (parse_streams body))]"
    by blast
  then have data: "data = JObject [(''url_tvg'', JString a), (''x_tvg_url'', JString b),
      (''streams'', JArray (map (\<lambda>e. JObject (map (\<lambda>(k, v). (k, JString v)) e))
         (map stream_entry (pair_lines body))))]"
    by (simp add: parse_streams_def entry_json_def comp_def)
  have k1: \<open>encode_basestring_ascii ''url_tvg'' = ''"url_tvg"''\<close>
    and k2: \<open>encode_basestring_ascii ''x_tvg_url'' = ''"x_tvg_url"''\<close>
    and k3: \<open>encode_basestring_ascii ''streams'' = ''"streams"''\<close>
    by code_simp+
  have \<open>dumps data = ''{"url_tvg": '' @ dumps (JString a) @ '', "x_tvg_url": '' @ dumps (JString b) @
           '', "streams": '' @
           dumps (JArray (map (\<lambda>e. JObject (map (\<lambda>(k, v). (k, JString v)) e))
             (map stream_entry (pair_lines body)))) @ ''}''\<close>
    unfolding data by (simp add: k1 k2 k3 del: dumps.simps(2,3))
  with o data show ?thesis by blast
qed

theorem m3u_to_json_three_keys_witness:
  \<open>m3u_to_json ''#EXTM3U url-tvg="a" x-tvg-url="b"\<newline>#EXTINF:-1,a,b\<newline>u'' =
     Inr ''{"url_tvg": "a", "x_tvg_url": "b", "streams": [{"chan_name": "a,b"}]}'' \<and>
   (\<exists>a b es. ''{"url_tvg": "a", "x_tvg_url": "b", "streams": [{"chan_name": "a,b"}]}'' =
      dumps (JObject [(''url_tvg'', JString a), (''x_tvg_url'', JString b),
              (''streams'', JArray (map (\<lambda>e. JObject (map (\<lambda>(k, v). (k, JString v)) e)) es))]))\<close>
proof -
  have e: \<open>m3u_to_json ''#EXTM3U url-tvg="a" x-tvg-url="b"\<newline>#EXTINF:-1,a,b\<newline>u'' =
     Inr ''{"url_tvg": "a", "x_tvg_url": "b", "streams": [{"chan_name": "a,b"}]}''\<close>
    by code_simp
  from m3u_to_json_three_keys [OF e] e show ?thesis by blast
qed

text \<open>An instance of C9: the second \<^verbatim>\<open>#EXTINF\<close> of the line overwrites the first.\<close>

theorem stream_entry_last_match_wins_witness:
  "map_of (stream_entry (''#EXTINF:1 #EXTINF:2'' @ [LF] @ ''u'')) ''ext_inf'' = Some ''2''"
proof -
  have f: "finditer regex_stream (''#EXTINF:1 #EXTINF:2'' @ [LF] @ ''u'') 0 =
    [\<lparr>m_start = 0, m_end = 9, m_groups = [(''ext_inf'', ''1'')]\<rparr>,
     \<lparr>m_start = 10, m_end = 19, m_groups = [(''ext_inf'', ''2'')]\<rparr>]"
    by code_simp
  have k: "concat (map kept_items
      [\<lparr>m_start = 0, m_end = 9, m_groups = [(''ext_inf'', ''1'')]\<rparr>,
       \<lparr>m_start = 10, m_end = 19, m_groups = [(''ext_inf'', ''2'')]\<rparr>]) =
      [(''ext_inf'', ''1''), (''ext_inf'', ''2'')]"
    by code_simp
  from stream_entry_last_match_wins [of "''#EXTINF:1 #EXTINF:2'' @ [LF] @ ''u''" "''ext_inf''"]
  show ?thesis
    unfolding f k by simp
qed

section \<open>The guide generator\<close>

lemma channel_xml_ok: "(\<exists>x. channel_xml vs = Inr x) \<longleftrightarrow> length vs = 4"
  by (cases vs rule: channel_xml.cases) simp_all

lemma program_xml_ok: "(\<exists>x. program_xml vs = Inr x) \<longleftrightarrow> length vs = 5 \<or> length vs = 6"
  unfolding program_xml_def by (auto split: list.splits)

lemma channels_loop_ok:
  "(\<exists>out. channels_loop acc cs = Inr out) \<longleftrightarrow> list_all (\<lambda>c. length c = 4) cs"
proof (induction cs arbitrary: acc)
  case Nil
  show ?case by simp
next
  case (Cons c cs)
  show ?case
  proof (cases "channel_xml (dict_values c)")
    case (Inl e)
    with channel_xml_ok [of "dict_values c"] show ?thesis
      by (simp add: dict_values_def)
  next
    case (Inr x)
    with channel_xml_ok [of "dict_values c"] Cons.IH [of "acc @ x"] show ?thesis
      by (simp add: dict_values_def)
  qed
qed

lemma programs_loop_ok:
  "(\<exists>out. programs_loop acc ps = Inr out) \<longleftrightarrow> list_all (\<lambda>p. length p = 5 \<or> length p = 6) ps"
proof (induction ps arbitrary: acc)
  case Nil
  show ?case by simp
next
  case (Cons p ps)
  show ?case
  proof (cases "program_xml (dict_values p)")
    case (Inl e)
    with program_xml_ok [of "dict_values p"] show ?thesis
      by (simp add: dict_values_def)
  next
    case (Inr x)
    with program_xml_ok [of "dict_values p"] Cons.IH [of "acc @ x"] show ?thesis
      by (simp add: dict_values_def)
  qed
qed

lemma channel_xml_error: "channel_xml vs = Inl e \<Longrightarrow> e = ValueError"
  by (cases vs rule: channel_xml.cases) simp_all

lemma program_xml_error: "program_xml vs = Inl e \<Longrightarrow> e = ValueError"
  unfolding program_xml_def by (auto split: list.splits if_splits)

lemma channels_loop_error: "channels_loop acc cs = Inl e \<Longrightarrow> e = ValueError"
proof (induction cs arbitrary: acc)
  case Nil
  then show ?case by simp
next
  case (Cons c cs)
  show ?case
  proof (cases "channel_xml (dict_values c)")
    case (Inl e')
    with Cons.prems channel_xml_error [of "dict_values c" e'] show ?thesis by simp
  next
    case (Inr x)
    with Cons.prems Cons.IH [of "acc @ x"] show ?thesis by simp
  qed
qed

lemma programs_loop_error: "programs_loop acc ps = Inl e \<Longrightarrow> e = ValueError"
proof (induction ps arbitrary: acc)
  case Nil
  then show ?case by simp
next
  case (Cons p ps)
  show ?case
  proof (cases "program_xml (dict_values p)")
    case (Inl e')
    with Cons.prems program_xml_error [of "dict_values p" e'] show ?thesis by simp
  next
    case (Inr x)
    with Cons.prems Cons.IH [of "acc @ x"] show ?thesis by simp
  qed
qed

lemma channels_loop_fail:
  "\<not> list_all (\<lambda>c. length c = 4) cs \<Longrightarrow> channels_loop acc cs = Inl ValueError"
  using channels_loop_ok [of acc cs] channels_loop_error [of acc cs]
  by (cases "channels_loop acc cs") auto

lemma programs_loop_fail:
  "\<not> list_all (\<lambda>p. length p = 5 \<or> length p = 6) ps \<Longrightarrow> programs_loop acc ps = Inl ValueError"
  using programs_loop_ok [of acc ps] programs_loop_error [of acc ps]
  by (cases "programs_loop acc ps") auto

text \<open>
  C4, as the code has it: when furl rejects the URL the generator raises furl's
  exception; when furl accepts it, the generator returns a string exactly when every
  channel object has four values and every program object has five or six, and raises
  ValueError otherwise.  The order and the content of the values play no part.
\<close>

theorem gen_xmltv_xml_returns_or_raises:
  "(case furl_origin url of
      Inl e \<Rightarrow> gen_xmltv_xml furl_origin channels programs url = Inl e
    | Inr origin \<Rightarrow>
        if list_all (\<lambda>c. length c = 4) channels \<and>
           list_all (\<lambda>p. length p = 5 \<or> length p = 6) programs
        then \<exists>out. gen_xmltv_xml furl_origin channels programs url = Inr out
        else gen_xmltv_xml furl_origin channels programs url = Inl ValueError)"
proof (cases "furl_origin url")
  case (Inl e)
  then show ?thesis by (simp add: gen_xmltv_xml_def)
next
  case (Inr origin)
  show ?thesis
  proof (cases "list_all (\<lambda>c. length c = 4) channels")
    case False
    from channels_loop_fail [OF False, of "[]"] Inr False show ?thesis
      by (simp add: gen_xmltv_xml_def)
  next
    case c: True
    with channels_loop_ok [of "[]" channels] obtain xc where xc: "channels_loop [] channels = Inr xc"
      by blast
    show ?thesis
    proof (cases "list_all (\<lambda>p. length p = 5 \<or> length p = 6) programs")
      case False
      from programs_loop_fail [OF False, of "[]"] Inr xc False show ?thesis
        by (simp add: gen_xmltv_xml_def)
    next
      case p: True
      with programs_loop_ok [of "[]" programs] obtain xp where "programs_loop [] programs = Inr xp"
        by blast
      with Inr xc c p show ?thesis by (simp add: gen_xmltv_xml_def)
    qed
  qed
qed

theorem gen_xmltv_xml_returns_or_raises_witness:
  "(\<exists>out. gen_xmltv_xml (\<lambda>u. Inr u)
      [[(''tvg_id'', ''1''), (''tvg_name'', ''BBC''), (''tvg_logo'', ''l''), (''epg_desc'', ''d'')]]
      [[(''tvg_id'', ''1''), (''epg_title'', ''T''), (''epg_start'', ''S''), (''epg_stop'', ''E''),
        (''epg_desc'', ''D'')]] ''http://h'' = Inr out) \<and>
   gen_xmltv_xml (\<lambda>u. Inr u)
      [[(''tvg_id'', ''1''), (''tvg_name'', ''BBC''), (''tvg_logo'', ''l''), (''epg_desc'', ''d'')]]
      [[(''tvg_id'', ''1''), (''epg_title'', ''T''), (''epg_start'', ''S''), (''epg_stop'', ''E'')]]
      ''http://h'' = Inl ValueError \<and>
   gen_xmltv_xml (\<lambda>u. Inl ValueError)
      [[(''tvg_id'', ''1''), (''tvg_name'', ''BBC''), (''tvg_logo'', ''l''), (''epg_desc'', ''d'')]] []
      ''http://h:99999'' = Inl ValueError"
  using gen_xmltv_xml_returns_or_raises [where furl_origin = "\<lambda>u. Inr u" and url = "''http://h''"
      and channels = "[[(''tvg_id'', ''1''), (''tvg_name'', ''BBC''), (''tvg_logo'', ''l''), (''epg_desc'', ''d'')]]"
      and programs = "[[(''tvg_id'', ''1''), (''epg_title'', ''T''), (''epg_start'', ''S''), (''epg_stop'', ''E''),
        (''epg_desc'', ''D'')]]"]
    gen_xmltv_xml_returns_or_raises [where furl_origin = "\<lambda>u. Inr u" and url = "''http://h''"
      and channels = "[[(''tvg_id'', ''1''), (''tvg_name'', ''BBC''), (''tvg_logo'', ''l''), (''epg_desc'', ''d'')]]"
      and programs = "[[(''tvg_id'', ''1''), (''epg_title'', ''T''), (''epg_start'', ''S''), (''epg_stop'', ''E'')]]"]
    gen_xmltv_xml_returns_or_raises [where furl_origin = "\<lambda>u. Inl ValueError" and url = "''http://h:99999''"
      and channels = "[[(''tvg_id'', ''1''), (''tvg_name'', ''BBC''), (''tvg_logo'', ''l''), (''epg_desc'', ''d'')]]"
      and programs = "[]"]
  by simp

text \<open>
  C4 as stated fails: a channel object with three values is a sequence of channel
  records the generator can be called with, and the call raises ValueError although
  furl accepts the URL.
\<close>

theorem gen_xmltv_xml_wrong_arity_raises:
  "gen_xmltv_xml (\<lambda>u. Inr u) [[(''tvg_id'', ''1''), (''tvg_name'', ''BBC''), (''tvg_logo'', ''l'')]] []
     ''http://h'' = Inl ValueError"
  by (simp add: gen_xmltv_xml_def dict_values_def)

text \<open>
  C10, as the code has it: with no channel and no program, when furl accepts the URL the
  generator returns the prolog, the DOCTYPE and the opening tv tag carrying the origin
  of the URL, and then at once the closing tv line; when furl rejects the URL the
  generator raises furl's exception and returns nothing.
\<close>

theorem gen_xmltv_xml_empty:
  \<open>gen_xmltv_xml furl_origin [] [] url =
     (case furl_origin url of
        Inl e \<Rightarrow> Inl e
      | Inr origin \<Rightarrow>
          Inr (''<?xml version="1.0" encoding="utf-8" ?>\<newline>'' @
               ''<!DOCTYPE tv SYSTEM "xmltv.dtd">\<newline>'' @
               ''<tv generator-info-name="IPTV" generator-info-url="'' @ origin @ ''">\<newline>'' @
               ''</tv>\<newline>''))\<close>
  by (simp add: gen_xmltv_xml_def xml_header_def xml_footer_def split: sum.splits)

theorem gen_xmltv_xml_empty_witness:
  \<open>gen_xmltv_xml (\<lambda>u. Inr ''http://host:8080'') [] [] ''http://host:8080/guide'' =
     Inr (''<?xml version="1.0" encoding="utf-8" ?>\<newline>'' @
          ''<!DOCTYPE tv SYSTEM "xmltv.dtd">\<newline>'' @
          ''<tv generator-info-name="IPTV" generator-info-url="http://host:8080">\<newline>'' @
          ''</tv>\<newline>'')\<close>
  using gen_xmltv_xml_empty [where furl_origin = \<open>\<lambda>u. Inr ''http://host:8080''\<close>
      and url = "''http://host:8080/guide''"]
  by simp

text \<open>
  C10 as stated fails: furl rejects the port of \<^verbatim>\<open>http://h:99999\<close> with ValueError, and
  the call with no channel and no program raises it; no text is returned.
\<close>

theorem gen_xmltv_xml_empty_rejected_url:
  "gen_xmltv_xml (\<lambda>u. Inl ValueError) [] [] ''http://h:99999'' = Inl ValueError"
  by (simp add: gen_xmltv_xml_def)

text \<open>
  C6: what the generator emits for one program object of five values (when furl accepts
  the URL), and that a sixth value changes nothing.  Each of the four lines of the
  programme block ends with an apostrophe (\<open>CHR 0x27\<close>) that the shape of the claim
  does not have.
\<close>

theorem programme_lines_end_with_apostrophe:
  \<open>gen_xmltv_xml furl_origin []
      [[(k1, tvg_id), (k2, epg_title), (k3, epg_start), (k4, epg_stop), (k5, epg_desc)]] url =
     (case furl_origin url of
        Inl e \<Rightarrow> Inl e
      | Inr origin \<Rightarrow>
          Inr (xml_header origin @
            ''    <programme channel="'' @ tvg_id @ ''" start="'' @ epg_start @ ''" stop="'' @ epg_stop @ ''">'' @ [CHR 0x27] @ ''\<newline>'' @
            ''        <title lang="en">'' @ epg_title @ ''</title>'' @ [CHR 0x27] @ ''\<newline>'' @
            ''        <desc lang="en">'' @ epg_desc @ ''</desc>'' @ [CHR 0x27] @ ''\<newline>'' @
            ''    </programme>'' @ [CHR 0x27] @ ''\<newline>'' @
            ''</tv>\<newline>'')) \<and>
   gen_xmltv_xml furl_origin []
      [[(k1, tvg_id), (k2, epg_title), (k3, epg_start), (k4, epg_stop), (k5, epg_desc), (k6, epg_icon)]] url =
   gen_xmltv_xml furl_origin []
      [[(k1, tvg_id), (k2, epg_title), (k3, epg_start), (k4, epg_stop), (k5, epg_desc)]] url\<close>
  by (simp add: gen_xmltv_xml_def dict_values_def program_xml_def programme_text_def xml_footer_def
      split: sum.splits)

text \<open>C6 at the call with one program object and the URL \<^verbatim>\<open>http://h\<close>, whose origin is \<^verbatim>\<open>http://h\<close>.\<close>

theorem programme_lines_end_with_apostrophe_witness:
  \<open>gen_xmltv_xml (\<lambda>u. Inr ''http://h'') []
      [[(''tvg_id'', ''1''), (''epg_title'', ''T''), (''epg_start'', ''S''), (''epg_stop'', ''E''),
        (''epg_desc'', ''D'')]] ''http://h'' =
     Inr (''<?xml version="1.0" encoding="utf-8" ?>\<newline>'' @
          ''<!DOCTYPE tv SYSTEM "xmltv.dtd">\<newline>'' @
          ''<tv generator-info-name="IPTV" generator-info-url="http://h">\<newline>'' @
          ''    <programme channel="1" start="S" stop="E">'' @ [CHR 0x27] @ ''\<newline>'' @
          ''        <title lang="en">T</title>'' @ [CHR 0x27] @ ''\<newline>'' @
          ''        <desc lang="en">D</desc>'' @ [CHR 0x27] @ ''\<newline>'' @
          ''    </programme>'' @ [CHR 0x27] @ ''\<newline>'' @
          ''</tv>\<newline>'')\<close>
  using programme_lines_end_with_apostrophe [where furl_origin = \<open>\<lambda>u. Inr ''http://h''\<close>
      and url = "''http://h''" and ?k1.0 = "''tvg_id''" and tvg_id = "''1''"
      and ?k2.0 = "''epg_title''" and epg_title = "''T''" and ?k3.0 = "''epg_start''"
      and epg_start = "''S''" and ?k4.0 = "''epg_stop''" and epg_stop = "''E''"
      and ?k5.0 = "''epg_desc''" and epg_desc = "''D''"]
  by (simp add: xml_header_def)

end
